theory Spec2Isabelle
  imports Main
begin

section \<open>A reactive engine: signals, effects, memos and batches\<close>

text \<open>
  The engine of \<^verbatim>\<open>index.ts\<close> keeps two kinds of objects, signal nodes and effects,
  and two module variables, the stack \<^verbatim>\<open>runningEffects\<close> and the queue \<^verbatim>\<open>Updates\<close>.
  Objects are allocated in two arenas (lists) and named by their index; a reference held
  by the engine is an index into an arena. Only \<^verbatim>\<open>createSignal\<close> and \<^verbatim>\<open>createEffect\<close>
  allocate, at the end of an arena, and nothing is ever removed from an arena, so in the
  states that the engine reaches from \<open>init\<close> every index that it holds is in range, as
  a reference of the source always points to an object. The bodies that callers hand to
  the engine (TypeScript closures) are terms of a small command language, since the
  engine stores them in its state and runs them again later.
\<close>

subsection \<open>Values and caller code\<close>

datatype val = Undefined | Num int | Str string | Bool bool

fun truthy :: "val \<Rightarrow> bool" where
  "truthy Undefined = False"
| "truthy (Num n) = (n \<noteq> 0)"
| "truthy (Str s) = (s \<noteq> [])"
| "truthy (Bool b) = b"

text \<open>
  What a call can end with other than a value: a value thrown by caller code, a
  reference to a signal that was never created, and the call of something that is not a
  function.
\<close>

datatype exn = Thrown val | ReferenceError | TypeError

datatype outcome = Normal val | Raised exn

text \<open>
  Caller code. \<open>Read s\<close> and \<open>Write s c\<close> call the getter and the setter that
  \<^verbatim>\<open>createSignal\<close> returned for signal \<open>s\<close> (naming a signal that was not created is
  a \<^verbatim>\<open>ReferenceError\<close>); \<open>Op2 f a b\<close> applies an operator of the language to two
  values; \<open>Tick k\<close> is \<^verbatim>\<open>k++\<close> on a variable of the caller; \<open>CreateEffect c\<close> and
  \<open>Batch c\<close> are \<^verbatim>\<open>createEffect(() => c)\<close> and \<^verbatim>\<open>batch(() => c)\<close>; \<open>Untrack c\<close> is the
  call \<^verbatim>\<open>untrack(() => c)\<close> of the name that the test file imports from \<^verbatim>\<open>./index\<close>,
  where \<^verbatim>\<open>index.ts\<close> defines no such function: the call is the call of
  \<^verbatim>\<open>undefined\<close>, a \<^verbatim>\<open>TypeError\<close>.
\<close>

datatype cmd =
    Const val
  | Read nat
  | Write nat cmd
  | Op2 "val \<Rightarrow> val \<Rightarrow> val" cmd cmd
  | If cmd cmd cmd
  | Seq cmd cmd
  | Tick nat
  | Throw cmd
  | TryCatch cmd cmd
  | CreateEffect cmd
  | Batch cmd
  | Untrack cmd

subsection \<open>The data model (\<^verbatim>\<open>types.ts\<close>) and the module state\<close>

record SignalNode =
  current :: val
  observers :: "nat list"

text \<open>
  An \<^verbatim>\<open>Effect\<close>. The field \<^verbatim>\<open>run\<close> (the closure \<^verbatim>\<open>() => runEffect(effect)\<close>) is never
  called by the engine and is left out. The sets of the source are JavaScript
  \<^verbatim>\<open>Set\<close>s, which iterate in insertion order: they are lists here, with \<open>set_add\<close> and
  \<open>set_delete\<close> below.
\<close>

record Effect =
  fn :: cmd
  dependencies :: "nat list"
  owner :: "nat option"
  owned :: "nat list option"
  state :: "string option"

text \<open>
  The module state. \<open>counters\<close> holds the variables of caller code. \<open>pushed\<close> and
  \<open>flushed\<close> are history variables that the source does not have: \<open>pushed\<close> records
  every \<^verbatim>\<open>Updates.push(observer)\<close>, \<open>flushed\<close> every effect that the loop of
  \<^verbatim>\<open>flushUpdates\<close> takes from the queue and runs, both in the order of time. No
  function of the engine reads them.
\<close>

record engine =
  signals :: "SignalNode list"
  effects :: "Effect list"
  runningEffects :: "nat list"
  Updates :: "nat list option"
  counters :: "nat \<Rightarrow> nat"
  pushed :: "nat list"
  flushed :: "nat list"

definition init :: engine where
  "init = \<lparr>signals = [], effects = [], runningEffects = [], Updates = None,
           counters = (\<lambda>_. 0), pushed = [], flushed = []\<rparr>"

definition set_add :: "nat \<Rightarrow> nat list \<Rightarrow> nat list" where
  "set_add x xs = (if x \<in> set xs then xs else xs @ [x])"

definition set_delete :: "nat \<Rightarrow> nat list \<Rightarrow> nat list" where
  "set_delete x xs = removeAll x xs"

subsection \<open>Tracking, reading and scheduling\<close>

definition getRunningEffect :: "engine \<Rightarrow> nat option" where
  "getRunningEffect st =
     (if runningEffects st = [] then None else Some (last (runningEffects st)))"

definition trackEffectDependency :: "nat \<Rightarrow> nat \<Rightarrow> engine \<Rightarrow> engine" where
  "trackEffectDependency e s st =
     (let sg = signals st ! s;
          st1 = st\<lparr>signals := (signals st)[s := sg\<lparr>observers := set_add e (observers sg)\<rparr>]\<rparr>;
          ef = effects st1 ! e
      in st1\<lparr>effects := (effects st1)[e := ef\<lparr>dependencies := set_add s (dependencies ef)\<rparr>]\<rparr>)"

definition createSignal :: "val \<Rightarrow> engine \<Rightarrow> nat \<times> engine" where
  "createSignal v st =
     (length (signals st), st\<lparr>signals := signals st @ [\<lparr>current = v, observers = []\<rparr>]\<rparr>)"

definition read :: "nat \<Rightarrow> engine \<Rightarrow> val \<times> engine" where
  "read s st =
     (let st1 = (case getRunningEffect st of
                   Some e \<Rightarrow> trackEffectDependency e s st
                 | None \<Rightarrow> st)
      in (current (signals st1 ! s), st1))"

text \<open>
  The closure that \<^verbatim>\<open>write\<close> passes to \<^verbatim>\<open>runUpdates\<close>: a loop over a copy of the
  observers. \<^verbatim>\<open>Updates.push\<close> on an absent queue is a \<^verbatim>\<open>TypeError\<close>, raised after the
  marker was set.
\<close>

fun scheduleObservers :: "nat list \<Rightarrow> engine \<Rightarrow> outcome \<times> engine" where
  "scheduleObservers [] st = (Normal Undefined, st)"
| "scheduleObservers (ob # obs) st =
     (if state (effects st ! ob) = None then
        (let st1 = st\<lparr>effects := (effects st)[ob := (effects st ! ob)\<lparr>state := Some ''pending''\<rparr>]\<rparr>
         in case Updates st1 of
              None \<Rightarrow> (Raised TypeError, st1)
            | Some q \<Rightarrow> scheduleObservers obs
                         (st1\<lparr>Updates := Some (q @ [ob]), pushed := pushed st1 @ [ob]\<rparr>))
      else scheduleObservers obs st)"

subsection \<open>Teardown\<close>

text \<open>
  \<^verbatim>\<open>cleanup\<close> recurses through the effects that an effect owns. The ownership relation
  lives in the state, so the recursion is bounded by a depth \<open>d\<close>; \<open>None\<close> means that
  the bound was too small. \<open>unobserve\<close> is the loop over the dependencies, \<open>forget\<close>
  the last two statements (\<^verbatim>\<open>delete effect.state\<close> and \<^verbatim>\<open>effect.dependencies.clear()\<close>).
\<close>

definition unobserve :: "nat \<Rightarrow> nat list \<Rightarrow> engine \<Rightarrow> engine" where
  "unobserve e deps st =
     st\<lparr>signals := fold (\<lambda>dep sgs. sgs[dep := (sgs ! dep)\<lparr>observers := set_delete e (observers (sgs ! dep))\<rparr>])
                         deps (signals st)\<rparr>"

definition forget :: "nat \<Rightarrow> engine \<Rightarrow> engine" where
  "forget e st =
     st\<lparr>effects := (effects st)[e := (effects st ! e)\<lparr>state := None, dependencies := []\<rparr>]\<rparr>"

fun cleanup :: "nat \<Rightarrow> nat \<Rightarrow> engine \<Rightarrow> engine option"
and cleanupOwned :: "nat \<Rightarrow> nat list \<Rightarrow> engine \<Rightarrow> engine option" where
  "cleanup 0 e st = None"
| "cleanup (Suc d) e st =
     (let st1 = unobserve e (dependencies (effects st ! e)) st in
      case owned (effects st1 ! e) of
        None \<Rightarrow> Some (forget e st1)
      | Some os \<Rightarrow>
          (case cleanupOwned d os st1 of
             None \<Rightarrow> None
           | Some st2 \<Rightarrow>
               Some (forget e (st2\<lparr>effects := (effects st2)[e := (effects st2 ! e)\<lparr>owned := Some []\<rparr>]\<rparr>))))"
| "cleanupOwned d [] st = Some st"
| "cleanupOwned d (c # cs) st =
     (case cleanup d c st of
        None \<Rightarrow> None
      | Some st1 \<Rightarrow> cleanupOwned d cs st1)"

subsection \<open>Running caller code, propagation and effects\<close>

text \<open>
  The two kinds of callback that \<^verbatim>\<open>runUpdates\<close> receives: caller code (the body of an
  effect or of a batch) and the scheduling closure of \<^verbatim>\<open>write\<close> for a signal.
\<close>

datatype callback = Body cmd | Schedule nat

text \<open>
  The first half of \<^verbatim>\<open>createEffect\<close>: the new effect object, owned by the effect that is
  running, if any (\<^verbatim>\<open>owner.owned ||= []; owner.owned.push(effect)\<close>). The new effect
  gets the next free index, \<open>length (effects st)\<close>.
\<close>

definition attachEffect :: "cmd \<Rightarrow> engine \<Rightarrow> engine" where
  "attachEffect c st =
     (let ow = getRunningEffect st;
          e = length (effects st);
          st1 = st\<lparr>effects := effects st @ [\<lparr>fn = c, dependencies = [], owner = ow, owned = None, state = None\<rparr>]\<rparr>
      in case ow of
           None \<Rightarrow> st1
         | Some p \<Rightarrow>
             st1\<lparr>effects := (effects st1)[p := (effects st1 ! p)
                    \<lparr>owned := Some ((case owned (effects st1 ! p) of None \<Rightarrow> [] | Some os \<Rightarrow> os) @ [e])\<rparr>]\<rparr>)"

text \<open>
  An effect may write a signal that it reads, so a flush need not end. The functions
  take a bound \<open>n\<close> that decreases with every \<^verbatim>\<open>runEffect\<close> and every turn of the
  loop of \<^verbatim>\<open>flushUpdates\<close>; \<open>None\<close> means that the bound was reached. Evaluating caller
  code that starts no effect costs nothing. \<open>flushLoop\<close> is the \<^verbatim>\<open>while\<close> loop of
  \<^verbatim>\<open>flushUpdates\<close>, with \<^verbatim>\<open>flushedIndex\<close> as its argument; with an index beyond the
  queue the loop of the source would turn forever without running anything, which is
  \<open>None\<close> as well. \<open>callbackSize\<close> serves the termination proof only.
\<close>

fun callbackSize :: "callback \<Rightarrow> nat" where
  "callbackSize (Body c) = size c"
| "callbackSize (Schedule s) = 0"

function exec :: "nat \<Rightarrow> cmd \<Rightarrow> engine \<Rightarrow> (outcome \<times> engine) option"
and call :: "nat \<Rightarrow> callback \<Rightarrow> engine \<Rightarrow> (outcome \<times> engine) option"
and "write" :: "nat \<Rightarrow> nat \<Rightarrow> val \<Rightarrow> engine \<Rightarrow> (outcome \<times> engine) option"
and runUpdates :: "nat \<Rightarrow> callback \<Rightarrow> engine \<Rightarrow> (outcome \<times> engine) option"
and flushUpdates :: "nat \<Rightarrow> engine \<Rightarrow> (outcome \<times> engine) option"
and flushLoop :: "nat \<Rightarrow> nat \<Rightarrow> engine \<Rightarrow> (outcome \<times> engine) option"
and runEffect :: "nat \<Rightarrow> nat \<Rightarrow> engine \<Rightarrow> (outcome \<times> engine) option"
and createEffect :: "nat \<Rightarrow> cmd \<Rightarrow> engine \<Rightarrow> (outcome \<times> engine) option"
and batch :: "nat \<Rightarrow> cmd \<Rightarrow> engine \<Rightarrow> (outcome \<times> engine) option" where
  "exec n (Const v) st = Some (Normal v, st)"
| "exec n (Read s) st =
     (if s < length (signals st) then (case read s st of (v, st1) \<Rightarrow> Some (Normal v, st1))
      else Some (Raised ReferenceError, st))"
| "exec n (Write s c) st =
     (if s < length (signals st) then
        (case exec n c st of
           None \<Rightarrow> None
         | Some (Raised x, st1) \<Rightarrow> Some (Raised x, st1)
         | Some (Normal v, st1) \<Rightarrow> write n s v st1)
      else Some (Raised ReferenceError, st))"
| "exec n (Op2 f a b) st =
     (case exec n a st of
        None \<Rightarrow> None
      | Some (Raised x, st1) \<Rightarrow> Some (Raised x, st1)
      | Some (Normal va, st1) \<Rightarrow>
          (case exec n b st1 of
             None \<Rightarrow> None
           | Some (Raised x, st2) \<Rightarrow> Some (Raised x, st2)
           | Some (Normal vb, st2) \<Rightarrow> Some (Normal (f va vb), st2)))"
| "exec n (If c a b) st =
     (case exec n c st of
        None \<Rightarrow> None
      | Some (Raised x, st1) \<Rightarrow> Some (Raised x, st1)
      | Some (Normal v, st1) \<Rightarrow> (if truthy v then exec n a st1 else exec n b st1))"
| "exec n (Seq a b) st =
     (case exec n a st of
        None \<Rightarrow> None
      | Some (Raised x, st1) \<Rightarrow> Some (Raised x, st1)
      | Some (Normal v, st1) \<Rightarrow> exec n b st1)"
| "exec n (Tick k) st =
     Some (Normal Undefined, st\<lparr>counters := (counters st)(k := Suc (counters st k))\<rparr>)"
| "exec n (Throw c) st =
     (case exec n c st of
        None \<Rightarrow> None
      | Some (Raised x, st1) \<Rightarrow> Some (Raised x, st1)
      | Some (Normal v, st1) \<Rightarrow> Some (Raised (Thrown v), st1))"
| "exec n (TryCatch a b) st =
     (case exec n a st of
        None \<Rightarrow> None
      | Some (Raised x, st1) \<Rightarrow> exec n b st1
      | Some (Normal v, st1) \<Rightarrow> Some (Normal v, st1))"
| "exec n (CreateEffect c) st = createEffect n c st"
| "exec n (Batch c) st = batch n c st"
| "exec n (Untrack c) st = Some (Raised TypeError, st)"
| "call n (Body c) st = exec n c st"
| "call n (Schedule s) st = Some (scheduleObservers (observers (signals st ! s)) st)"
| "write n s nextValue st =
     (let st1 = st\<lparr>signals := (signals st)[s := (signals st ! s)\<lparr>current := nextValue\<rparr>]\<rparr>
      in if observers (signals st1 ! s) \<noteq> [] then
           (case runUpdates n (Schedule s) st1 of
              None \<Rightarrow> None
            | Some (Raised x, st2) \<Rightarrow> Some (Raised x, st2)
            | Some (Normal v, st2) \<Rightarrow> Some (Normal Undefined, st2))
         else Some (Normal Undefined, st1))"
| "runUpdates n cb st =
     (case Updates st of
        Some q \<Rightarrow> call n cb st
      | None \<Rightarrow>
          (case call n cb (st\<lparr>Updates := Some []\<rparr>) of
             None \<Rightarrow> None
           | Some (Raised x, st1) \<Rightarrow> Some (Raised x, st1)
           | Some (Normal v, st1) \<Rightarrow> flushUpdates n st1))"
| "flushUpdates n st =
     (case flushLoop n 0 st of
        None \<Rightarrow> None
      | Some (Raised x, st1) \<Rightarrow> Some (Raised x, st1)
      | Some (Normal v, st1) \<Rightarrow> Some (Normal Undefined, st1\<lparr>Updates := None\<rparr>))"
| "flushLoop n flushedIndex st =
     (case Updates st of
        None \<Rightarrow> Some (Raised TypeError, st)
      | Some q \<Rightarrow>
          if q \<noteq> [] \<and> flushedIndex \<noteq> length q then
            (if flushedIndex < length q then
               (case n of
                  0 \<Rightarrow> None
                | Suc m \<Rightarrow>
                    (case runEffect m (q ! flushedIndex) (st\<lparr>flushed := flushed st @ [q ! flushedIndex]\<rparr>) of
                       None \<Rightarrow> None
                     | Some (Raised x, st1) \<Rightarrow> Some (Raised x, st1)
                     | Some (Normal v, st1) \<Rightarrow> flushLoop m (Suc flushedIndex) st1))
             else None)
          else Some (Normal Undefined, st))"
| "runEffect 0 e st = None"
| "runEffect (Suc n) e st =
     (case cleanup (Suc n) e st of
        None \<Rightarrow> None
      | Some st1 \<Rightarrow>
          (case runUpdates n (Body (fn (effects st1 ! e))) (st1\<lparr>runningEffects := runningEffects st1 @ [e]\<rparr>) of
             None \<Rightarrow> None
           | Some (Raised x, st2) \<Rightarrow> Some (Raised x, st2\<lparr>runningEffects := butlast (runningEffects st2)\<rparr>)
           | Some (Normal v, st2) \<Rightarrow> Some (Normal Undefined, st2\<lparr>runningEffects := butlast (runningEffects st2)\<rparr>)))"
| "createEffect n c st = runEffect n (length (effects st)) (attachEffect c st)"
| "batch n c st =
     (case runUpdates n (Body c) st of
        None \<Rightarrow> None
      | Some (Raised x, st1) \<Rightarrow> Some (Raised x, st1)
      | Some (Normal v, st1) \<Rightarrow> Some (Normal Undefined, st1))"
  by pat_completeness auto

text \<open>
  Termination: the bound first, then the size of the caller code at hand, then the
  position of the function in the call chain.
\<close>

termination
  by (relation "inv_image (less_than <*lex*> less_than <*lex*> less_than)
        (case_sum
          (case_sum
            (case_sum (\<lambda>(n, c, st). (n, size c, 0::nat)) (\<lambda>(n, cb, st). (n, callbackSize cb, 1)))
            (case_sum (\<lambda>(n, s, v, st). (n, 0, 4)) (\<lambda>(n, cb, st). (n, callbackSize cb, 3))))
          (case_sum
            (case_sum (\<lambda>(n, st). (n, 0, 2)) (\<lambda>(n, i, st). (n, 0, 1)))
            (case_sum (\<lambda>(n, e, st). (n, 0, 0))
              (case_sum (\<lambda>(n, c, st). (n, size c, 1)) (\<lambda>(n, c, st). (n, size c, 4))))))")
     auto

text \<open>
  \<^verbatim>\<open>createMemo\<close>: a signal without initial value and an effect that writes the result
  of \<open>f\<close> into it. The caller gets the reader of the signal, here its index.
\<close>

definition createMemo :: "nat \<Rightarrow> cmd \<Rightarrow> engine \<Rightarrow> (outcome \<times> nat \<times> engine) option" where
  "createMemo n f st =
     (case createSignal Undefined st of
        (memoReadOnlySignal, st1) \<Rightarrow>
          (case createEffect n (Write memoReadOnlySignal f) st1 of
             None \<Rightarrow> None
           | Some (out, st2) \<Rightarrow> Some (out, memoReadOnlySignal, st2)))"

subsection \<open>Auxiliary notions\<close>

text \<open>Two states with the same stack, queue, histories and caller variables.\<close>

definition sameControl :: "engine \<Rightarrow> engine \<Rightarrow> bool" where
  "sameControl st st' \<longleftrightarrow>
     runningEffects st' = runningEffects st \<and> Updates st' = Updates st \<and>
     pushed st' = pushed st \<and> flushed st' = flushed st \<and> counters st' = counters st"

text \<open>
  \<open>grows st st'\<close>: the queue is open in \<open>st\<close>, and from \<open>st\<close> to \<open>st'\<close> it was only
  appended to, every append was recorded in \<open>pushed\<close>, and the flush loop took nothing.
\<close>

definition grows :: "engine \<Rightarrow> engine \<Rightarrow> bool" where
  "grows st st' \<longleftrightarrow>
     (\<exists>q d. Updates st = Some q \<and> Updates st' = Some (q @ d) \<and> pushed st' = pushed st @ d)
     \<and> flushed st' = flushed st"

subsection \<open>Bodies that only read, and an engine with one effect\<close>

text \<open>
  Caller code that only computes: constants, reads of signals, operators, conditionals
  and sequences.
\<close>

fun readOnly :: "cmd \<Rightarrow> bool" where
  "readOnly (Const v) = True"
| "readOnly (Read s) = True"
| "readOnly (Op2 f a b) = (readOnly a \<and> readOnly b)"
| "readOnly (If c a b) = (readOnly c \<and> readOnly a \<and> readOnly b)"
| "readOnly (Seq a b) = (readOnly a \<and> readOnly b)"
| "readOnly c = False"

text \<open>\<open>scoped k c\<close>: every signal that \<open>c\<close> names has an index below \<open>k\<close>.\<close>

fun scoped :: "nat \<Rightarrow> cmd \<Rightarrow> bool" where
  "scoped k (Const v) = True"
| "scoped k (Read s) = (s < k)"
| "scoped k (Write s c) = (s < k \<and> scoped k c)"
| "scoped k (Op2 f a b) = (scoped k a \<and> scoped k b)"
| "scoped k (If c a b) = (scoped k c \<and> scoped k a \<and> scoped k b)"
| "scoped k (Seq a b) = (scoped k a \<and> scoped k b)"
| "scoped k (Tick c) = True"
| "scoped k (Throw c) = scoped k c"
| "scoped k (TryCatch a b) = (scoped k a \<and> scoped k b)"
| "scoped k (CreateEffect c) = scoped k c"
| "scoped k (Batch c) = scoped k c"
| "scoped k (Untrack c) = scoped k c"

text \<open>
  The value of read-only code, and the signals that its evaluation reads, in the order of
  the reads, when the signals hold the values \<open>vs\<close>.
\<close>

fun valueOf :: "val list \<Rightarrow> cmd \<Rightarrow> val" where
  "valueOf vs (Const v) = v"
| "valueOf vs (Read s) = vs ! s"
| "valueOf vs (Op2 f a b) = f (valueOf vs a) (valueOf vs b)"
| "valueOf vs (If c a b) = (if truthy (valueOf vs c) then valueOf vs a else valueOf vs b)"
| "valueOf vs (Seq a b) = valueOf vs b"
| "valueOf vs c = Undefined"

fun readsOf :: "val list \<Rightarrow> cmd \<Rightarrow> nat list" where
  "readsOf vs (Const v) = []"
| "readsOf vs (Read s) = [s]"
| "readsOf vs (Op2 f a b) = readsOf vs a @ readsOf vs b"
| "readsOf vs (If c a b) =
     readsOf vs c @ (if truthy (valueOf vs c) then readsOf vs a else readsOf vs b)"
| "readsOf vs (Seq a b) = readsOf vs a @ readsOf vs b"
| "readsOf vs c = []"

text \<open>The signals that code names, whatever the values.\<close>

fun mentions :: "cmd \<Rightarrow> nat set" where
  "mentions (Const v) = {}"
| "mentions (Read s) = {s}"
| "mentions (Write s c) = insert s (mentions c)"
| "mentions (Op2 f a b) = mentions a \<union> mentions b"
| "mentions (If c a b) = mentions c \<union> mentions a \<union> mentions b"
| "mentions (Seq a b) = mentions a \<union> mentions b"
| "mentions (Tick k) = {}"
| "mentions (Throw c) = mentions c"
| "mentions (TryCatch a b) = mentions a \<union> mentions b"
| "mentions (CreateEffect c) = mentions c"
| "mentions (Batch c) = mentions c"
| "mentions (Untrack c) = mentions c"


text \<open>
  Signals that hold the values \<open>vs\<close>, those with an index in \<open>A\<close> observed by effect 0 and
  the others by nothing.
\<close>

definition observed :: "val list \<Rightarrow> nat set \<Rightarrow> SignalNode list" where
  "observed vs A =
     map (\<lambda>i. \<lparr>current = vs ! i, observers = (if i \<in> A then [0] else [])\<rparr>) [0..<length vs]"



definition fits :: "nat option \<Rightarrow> cmd \<Rightarrow> nat \<Rightarrow> bool" where
  "fits k b len \<longleftrightarrow>
     readOnly b \<and> (case k of None \<Rightarrow> scoped len b | Some m \<Rightarrow> m < len \<and> scoped m b)"

text \<open>
  The engine at rest with one effect, which observes the signals \<open>R\<close> that its last run
  read: no effect is running, no queue is open.
\<close>

definition single :: "val list \<Rightarrow> nat list \<Rightarrow> cmd \<Rightarrow> (nat \<Rightarrow> nat) \<Rightarrow> nat list \<Rightarrow> nat list \<Rightarrow> engine" where
  "single vs R body C P F =
     \<lparr>signals = observed vs (set R),
      effects = [\<lparr>fn = body, dependencies = fold set_add R [], owner = None, owned = None, state = None\<rparr>],
      runningEffects = [], Updates = None, counters = C, pushed = P, flushed = F\<rparr>"

subsection \<open>Scenarios\<close>

text \<open>
  Three effects on two signals: \<open>c8_A\<close> copies signal 0 into signal 1, \<open>c8_B\<close> reads
  signal 1 and \<open>c8_C\<close> reads signal 0. A write to signal 0 queues \<open>c8_A\<close> and \<open>c8_C\<close>;
  the run of \<open>c8_A\<close> queues \<open>c8_B\<close> during the drain.
\<close>

definition c8_A :: cmd where "c8_A = Seq (Read 0) (Write 1 (Read 0))"

definition c8_B :: cmd where "c8_B = Seq (Read 1) (Tick 1)"

definition c8_C :: cmd where "c8_C = Seq (Read 0) (Tick 2)"

definition c8_setup :: "(outcome \<times> engine) option" where
  "c8_setup =
     (case createSignal (Num 0) init of (s0, st0) \<Rightarrow>
      case createSignal (Num 0) st0 of (s1, st1) \<Rightarrow>
        exec 2 (Seq (CreateEffect c8_A) (Seq (CreateEffect c8_B) (CreateEffect c8_C))) st1)"

text \<open>
  An effect (index 1) whose body throws, about to be run while effect 0 is running.
\<close>

definition c9_state :: engine where
  "c9_state =
     attachEffect (Throw (Const (Str ''boom'')))
       (attachEffect (Const Undefined) init\<lparr>runningEffects := [0]\<rparr>)"

text \<open>
  The scenario of the specification: \<^verbatim>\<open>const [c,setC]=signal(v0); let n=0;
  effect(()=>{c(); n++;}); setC(v1); setC(v2);\<close>, for any three values; \<open>c3_first\<close> stops
  after the first write. The variable \<^verbatim>\<open>n\<close> is counter 0.
\<close>

definition c3_run :: "nat \<Rightarrow> val \<Rightarrow> val \<Rightarrow> val \<Rightarrow> (outcome \<times> engine) option" where
  "c3_run n v0 v1 v2 =
     (case createSignal v0 init of (c, st0) \<Rightarrow>
        exec n (Seq (CreateEffect (Seq (Read c) (Tick 0)))
                 (Seq (Write c (Const v1)) (Write c (Const v2)))) st0)"

definition c3_first :: "nat \<Rightarrow> val \<Rightarrow> val \<Rightarrow> (outcome \<times> engine) option" where
  "c3_first n v0 v1 =
     (case createSignal v0 init of (c, st0) \<Rightarrow>
        exec n (Seq (CreateEffect (Seq (Read c) (Tick 0))) (Write c (Const v1))) st0)"

text \<open>
  The scenario \<^verbatim>\<open>testUntrackScenarios\<close> of the test file: an effect whose body calls
  \<^verbatim>\<open>untrack\<close> on a function that reads two signals, then counts.
\<close>

definition c1_run :: "nat \<Rightarrow> (outcome \<times> engine) option" where
  "c1_run n =
     (case createSignal (Str ''John'') init of (firstName, st0) \<Rightarrow>
      case createSignal (Str ''Smith'') st0 of (lastName, st1) \<Rightarrow>
        exec n (Seq (CreateEffect (Seq (Untrack (Seq (Read firstName) (Read lastName))) (Tick 0)))
                 (Seq (Write firstName (Const (Str ''Dor''))) (Write lastName (Const (Str ''Mew''))))) st1)"

text \<open>
  An effect that reads signal 0 and throws when the value is truthy; a first write makes
  it throw, a second write follows.
\<close>

definition c2_body :: cmd where
  "c2_body = Seq (Tick 0) (If (Read 0) (Throw (Const (Str ''boom''))) (Const Undefined))"

definition c2_setup :: "nat \<Rightarrow> (outcome \<times> engine) option" where
  "c2_setup n =
     (case createSignal (Num 0) init of (s, st0) \<Rightarrow>
        exec n (Seq (CreateEffect c2_body) (Write s (Const (Num 1)))) st0)"

text \<open>
  Effect 0 reads signal 0; effect 1 reads signal 1 and writes signal 0. A batch writes
  both signals. \<open>c4_cycle\<close> is the cycle of that batch as \<^verbatim>\<open>runUpdates\<close> performs it, up
  to the end of the loop of \<^verbatim>\<open>flushUpdates\<close>: the queue is opened, the body of the batch
  is called, the loop runs; the queue is still there in the resulting state, and
  \<open>c4_queue\<close> is that queue.
\<close>

definition c4_setup :: "(outcome \<times> engine) option" where
  "c4_setup =
     (case createSignal (Num 0) init of (s, st0) \<Rightarrow>
      case createSignal (Num 0) st0 of (t, st1) \<Rightarrow>
        exec 3 (Seq (CreateEffect (Seq (Read s) (Tick 0)))
                    (CreateEffect (Seq (Read t) (Write s (Const (Num 7)))))) st1)"

definition c4_batch :: cmd where
  "c4_batch = Seq (Write 0 (Const (Num 1))) (Write 1 (Const (Num 1)))"

definition c4_cycle :: "(outcome \<times> engine) option" where
  "c4_cycle =
     (case c4_setup of
        None \<Rightarrow> None
      | Some (out, st) \<Rightarrow>
          (case call 4 (Body c4_batch) (st\<lparr>Updates := Some []\<rparr>) of
             None \<Rightarrow> None
           | Some (out1, st1) \<Rightarrow> flushLoop 4 0 st1))"

definition c4_queue :: "nat list option" where
  "c4_queue = (case c4_cycle of None \<Rightarrow> None | Some (out, st) \<Rightarrow> Updates st)"

text \<open>
  Two signals with initial values \<open>a\<close> and \<open>b\<close>, as two calls of \<^verbatim>\<open>createSignal\<close> leave them:
  signal 0 and signal 1.
\<close>

definition twoSignals :: "val \<Rightarrow> val \<Rightarrow> engine" where
  "twoSignals a b = snd (createSignal b (snd (createSignal a init)))"

text \<open>
  The batching scenario of the test file: the body of the effect reads both signals and
  counts in counter 0; the body of the memo counts in counter 1 and returns a value
  computed from both signals. The batch writes both signals.
\<close>

definition c5_effect :: "(val \<Rightarrow> val \<Rightarrow> val) \<Rightarrow> cmd" where
  "c5_effect f = Seq (Op2 f (Read 0) (Read 1)) (Tick 0)"

definition c5_memo :: "(val \<Rightarrow> val \<Rightarrow> val) \<Rightarrow> cmd" where
  "c5_memo f = Seq (Tick 1) (Op2 f (Read 0) (Read 1))"

definition c5_batch :: "val \<Rightarrow> val \<Rightarrow> cmd" where
  "c5_batch v1 v2 = Batch (Seq (Write 0 (Const v1)) (Write 1 (Const v2)))"


fun writeEach :: "nat \<Rightarrow> nat \<Rightarrow> val list \<Rightarrow> engine \<Rightarrow> (outcome \<times> engine) option" where
  "writeEach n s [] st = Some (Normal Undefined, st)"
| "writeEach n s (v # vs) st =
     (case write n s v st of
        None \<Rightarrow> None
      | Some (Raised x, st1) \<Rightarrow> Some (Raised x, st1)
      | Some (Normal w, st1) \<Rightarrow> writeEach n s vs st1)"





section \<open>Properties\<close>

subsection \<open>What teardown, reading and scheduling leave alone\<close>

text \<open>
  The equations of the engine's functions that are not guarded by a pattern are unfolded
  by hand, where needed.
\<close>

declare flushLoop.simps [simp del] cleanup.simps [simp del] cleanupOwned.simps [simp del]
  "write.simps" [simp del] runUpdates.simps [simp del] flushUpdates.simps [simp del]
  createEffect.simps [simp del] batch.simps [simp del]

lemma sameControl_refl [simp]: "sameControl st st"
  by (simp add: sameControl_def)

lemma sameControl_trans: "sameControl a b \<Longrightarrow> sameControl b c \<Longrightarrow> sameControl a c"
  by (simp add: sameControl_def)

lemma sameControl_unobserve [simp]: "sameControl st (unobserve e ds st)"
  by (simp add: sameControl_def unobserve_def)

lemma sameControl_forget [simp]: "sameControl st (forget e st)"
  by (simp add: sameControl_def forget_def)

lemma sameControl_effects [simp]: "sameControl st (st\<lparr>effects := es\<rparr>)"
  by (simp add: sameControl_def)

lemma sameControl_signals [simp]: "sameControl st (st\<lparr>signals := es\<rparr>)"
  by (simp add: sameControl_def)

lemma cleanup_control:
  "cleanup d e st = Some st' \<Longrightarrow> sameControl st st'"
  "cleanupOwned d es st = Some st' \<Longrightarrow> sameControl st st'"
proof (induction d e st and d es st arbitrary: st' and st' rule: cleanup_cleanupOwned.induct)
  case (1 e st)
  then show ?case by (simp add: cleanup.simps)
next
  case (2 d e st)
  let ?st1 = "unobserve e (dependencies (effects st ! e)) st"
  show ?case
  proof (cases "owned (effects ?st1 ! e)")
    case None
    with 2(2) have "st' = forget e ?st1"
      by (simp add: cleanup.simps)
    then show ?thesis
      by (metis sameControl_trans sameControl_unobserve sameControl_forget)
  next
    case (Some os)
    with 2(2) obtain st2 where c: "cleanupOwned d os ?st1 = Some st2"
      and r: "st' = forget e (st2\<lparr>effects := (effects st2)[e := (effects st2 ! e)\<lparr>owned := Some []\<rparr>]\<rparr>)"
      by (auto simp: cleanup.simps split: option.splits)
    from 2(1)[OF refl Some c] have "sameControl ?st1 st2" .
    then have "sameControl st st2"
      by (metis sameControl_trans sameControl_unobserve)
    with r show ?thesis
      by (metis sameControl_trans sameControl_effects sameControl_forget)
  qed
next
  case (3 d st)
  then show ?case by (simp add: cleanupOwned.simps)
next
  case (4 d c cs st)
  from 4(3) obtain st1 where a: "cleanup d c st = Some st1" and b: "cleanupOwned d cs st1 = Some st'"
    by (auto simp: cleanupOwned.simps split: option.splits)
  from 4(1)[OF a] 4(2)[OF a b] show ?case
    by (rule sameControl_trans)
qed

lemma read_control: "read s st = (v, st') \<Longrightarrow> sameControl st st'"
  by (auto simp: read_def sameControl_def trackEffectDependency_def Let_def split: option.splits)

lemma scheduleObservers_stack:
  "scheduleObservers obs st = (out, st') \<Longrightarrow> runningEffects st' = runningEffects st"
  by (induction obs st arbitrary: out st' rule: scheduleObservers.induct)
     (auto simp: Let_def split: if_splits option.splits)

subsection \<open>Case analysis of one call\<close>

text \<open>
  For each function of the engine, the ways in which a call can have produced a given
  outcome and state.
\<close>

lemma exec_Write_cases:
  assumes "exec n (Write s c) st = Some (out, st')"
  obtains (unbound) "\<not> s < length (signals st)" "out = Raised ReferenceError" "st' = st"
  | (raised) x where "s < length (signals st)" "exec n c st = Some (Raised x, st')" "out = Raised x"
  | (normal) v st1 where "s < length (signals st)" "exec n c st = Some (Normal v, st1)"
      "write n s v st1 = Some (out, st')"
  using assms by (auto split: if_splits option.splits outcome.splits)

lemma exec_Op2_cases:
  assumes "exec n (Op2 f a b) st = Some (out, st')"
  obtains (raised1) x where "exec n a st = Some (Raised x, st')" "out = Raised x"
  | (raised2) va st1 x where "exec n a st = Some (Normal va, st1)"
      "exec n b st1 = Some (Raised x, st')" "out = Raised x"
  | (normal) va st1 vb where "exec n a st = Some (Normal va, st1)"
      "exec n b st1 = Some (Normal vb, st')" "out = Normal (f va vb)"
  using assms by (auto split: if_splits option.splits outcome.splits)

lemma exec_If_cases:
  assumes "exec n (If c a b) st = Some (out, st')"
  obtains (raised) x where "exec n c st = Some (Raised x, st')" "out = Raised x"
  | (true) v st1 where "exec n c st = Some (Normal v, st1)" "truthy v"
      "exec n a st1 = Some (out, st')"
  | (false) v st1 where "exec n c st = Some (Normal v, st1)" "\<not> truthy v"
      "exec n b st1 = Some (out, st')"
  using assms by (auto split: if_splits option.splits outcome.splits)

lemma exec_Seq_cases:
  assumes "exec n (Seq a b) st = Some (out, st')"
  obtains (raised) x where "exec n a st = Some (Raised x, st')" "out = Raised x"
  | (normal) v st1 where "exec n a st = Some (Normal v, st1)" "exec n b st1 = Some (out, st')"
  using assms by (auto split: if_splits option.splits outcome.splits)

lemma exec_Throw_cases:
  assumes "exec n (Throw c) st = Some (out, st')"
  obtains (raised) x where "exec n c st = Some (Raised x, st')" "out = Raised x"
  | (normal) v where "exec n c st = Some (Normal v, st')" "out = Raised (Thrown v)"
  using assms by (auto split: if_splits option.splits outcome.splits)

lemma exec_TryCatch_cases:
  assumes "exec n (TryCatch a b) st = Some (out, st')"
  obtains (raised) x st1 where "exec n a st = Some (Raised x, st1)" "exec n b st1 = Some (out, st')"
  | (normal) v where "exec n a st = Some (Normal v, st')" "out = Normal v"
  using assms by (auto split: if_splits option.splits outcome.splits)


lemma write_cases:
  assumes "write n s v st = Some (out, st')"
  obtains (quiet) "observers (signals st ! s) = [] \<or> \<not> s < length (signals st)" "out = Normal Undefined"
      "st' = st\<lparr>signals := (signals st)[s := (signals st ! s)\<lparr>current := v\<rparr>]\<rparr>"
  | (notify) out' where
      "runUpdates n (Schedule s) (st\<lparr>signals := (signals st)[s := (signals st ! s)\<lparr>current := v\<rparr>]\<rparr>)
         = Some (out', st')"
      "observers ((signals st)[s := (signals st ! s)\<lparr>current := v\<rparr>] ! s) \<noteq> []"
      "out = (case out' of Raised x \<Rightarrow> Raised x | Normal w \<Rightarrow> Normal Undefined)"
  using assms
  by (cases "s < length (signals st)")
     (auto simp: "write.simps" Let_def split: if_splits option.splits outcome.splits)

lemma runUpdates_cases:
  assumes "runUpdates n cb st = Some (out, st')"
  obtains (nested) q where "Updates st = Some q" "call n cb st = Some (out, st')"
  | (raised) x where "Updates st = None" "call n cb (st\<lparr>Updates := Some []\<rparr>) = Some (Raised x, st')"
      "out = Raised x"
  | (flush) v st1 where "Updates st = None" "call n cb (st\<lparr>Updates := Some []\<rparr>) = Some (Normal v, st1)"
      "flushUpdates n st1 = Some (out, st')"
  using assms by (auto simp: runUpdates.simps split: option.splits outcome.splits)

lemma flushUpdates_cases:
  assumes "flushUpdates n st = Some (out, st')"
  obtains (raised) x where "flushLoop n 0 st = Some (Raised x, st')" "out = Raised x"
  | (normal) v st1 where "flushLoop n 0 st = Some (Normal v, st1)" "out = Normal Undefined"
      "st' = st1\<lparr>Updates := None\<rparr>"
  using assms by (auto simp: flushUpdates.simps split: option.splits outcome.splits)

lemma flushLoop_cases:
  assumes "flushLoop n i st = Some (out, st')"
  obtains (absent) "Updates st = None" "out = Raised TypeError" "st' = st"
  | (drained) q where "Updates st = Some q" "q = [] \<or> i = length q" "out = Normal Undefined" "st' = st"
  | (raised) q m x where "Updates st = Some q" "q \<noteq> [] \<and> i \<noteq> length q" "i < length q" "n = Suc m"
      "runEffect m (q ! i) (st\<lparr>flushed := flushed st @ [q ! i]\<rparr>) = Some (Raised x, st')"
      "out = Raised x"
  | (step) q m v st1 where "Updates st = Some q" "q \<noteq> [] \<and> i \<noteq> length q" "i < length q" "n = Suc m"
      "runEffect m (q ! i) (st\<lparr>flushed := flushed st @ [q ! i]\<rparr>) = Some (Normal v, st1)"
      "flushLoop m (Suc i) st1 = Some (out, st')"
  using assms
  by (subst (asm) flushLoop.simps)
     (auto split: option.splits outcome.splits if_splits nat.splits)

lemma runEffect_cases:
  assumes "runEffect n e st = Some (out, st')"
  obtains m st1 out' st2 where "n = Suc m" "cleanup (Suc m) e st = Some st1"
      "runUpdates m (Body (fn (effects st1 ! e))) (st1\<lparr>runningEffects := runningEffects st1 @ [e]\<rparr>)
         = Some (out', st2)"
      "st' = st2\<lparr>runningEffects := butlast (runningEffects st2)\<rparr>"
      "out = (case out' of Raised x \<Rightarrow> Raised x | Normal w \<Rightarrow> Normal Undefined)"
  using assms by (cases n) (auto split: option.splits outcome.splits)

lemma batch_cases:
  assumes "batch n c st = Some (out, st')"
  obtains out' where "runUpdates n (Body c) st = Some (out', st')"
      "out = (case out' of Raised x \<Rightarrow> Raised x | Normal w \<Rightarrow> Normal Undefined)"
  using assms by (auto simp: batch.simps split: option.splits outcome.splits)

subsection \<open>The stack of running effects\<close>

text \<open>
  Every call of the engine that returns, with a value or with an exception, leaves
  \<^verbatim>\<open>runningEffects\<close> as it found it.
\<close>

lemma stack_preserved:
  "exec n c st = Some (out, st') \<Longrightarrow> runningEffects st' = runningEffects st"
  "call n cb st = Some (out, st') \<Longrightarrow> runningEffects st' = runningEffects st"
  "write n s v st = Some (out, st') \<Longrightarrow> runningEffects st' = runningEffects st"
  "runUpdates n cb st = Some (out, st') \<Longrightarrow> runningEffects st' = runningEffects st"
  "flushUpdates n st = Some (out, st') \<Longrightarrow> runningEffects st' = runningEffects st"
  "flushLoop n i st = Some (out, st') \<Longrightarrow> runningEffects st' = runningEffects st"
  "runEffect n e st = Some (out, st') \<Longrightarrow> runningEffects st' = runningEffects st"
  "createEffect n c st = Some (out, st') \<Longrightarrow> runningEffects st' = runningEffects st"
  "batch n c st = Some (out, st') \<Longrightarrow> runningEffects st' = runningEffects st"
proof (induction n c st and n cb st and n s v st and n cb st and n st and n i st and n e st
         and n c st and n c st arbitrary: out st' and out st' and out st' and out st' and out st'
         and out st' and out st' and out st' and out st'
         rule: exec_call_write_runUpdates_flushUpdates_flushLoop_runEffect_createEffect_batch.induct)
  case (1 n v st)
  then show ?case by simp
next
  case (2 n s st)
  then show ?case
    by (auto simp: sameControl_def split: if_splits prod.splits dest: read_control)
next
  case (3 n s c st)
  from "3.prems" show ?case
  proof (cases rule: exec_Write_cases)
    case unbound
    then show ?thesis by simp
  next
    case (raised x)
    then show ?thesis using "3.IH"(1) by blast
  next
    case (normal v st1)
    from "3.IH"(1)[OF normal(1,2)] "3.IH"(2)[OF normal(1,2) refl refl normal(3)]
    show ?thesis by simp
  qed
next
  case (4 n f a b st)
  from "4.prems" show ?case
  proof (cases rule: exec_Op2_cases)
    case (raised1 x)
    then show ?thesis using "4.IH"(1) by blast
  next
    case (raised2 va st1 x)
    from "4.IH"(1)[OF raised2(1)] "4.IH"(2)[OF raised2(1) refl refl raised2(2)]
    show ?thesis by simp
  next
    case (normal va st1 vb)
    from "4.IH"(1)[OF normal(1)] "4.IH"(2)[OF normal(1) refl refl normal(2)]
    show ?thesis by simp
  qed
next
  case (5 n c a b st)
  from "5.prems" show ?case
  proof (cases rule: exec_If_cases)
    case (raised x)
    then show ?thesis using "5.IH"(1) by blast
  next
    case (true v st1)
    from "5.IH"(1)[OF true(1)] "5.IH"(2)[OF true(1) refl refl true(2,3)]
    show ?thesis by simp
  next
    case (false v st1)
    from "5.IH"(1)[OF false(1)] "5.IH"(3)[OF false(1) refl refl false(2,3)]
    show ?thesis by simp
  qed
next
  case (6 n a b st)
  from "6.prems" show ?case
  proof (cases rule: exec_Seq_cases)
    case (raised x)
    then show ?thesis using "6.IH"(1) by blast
  next
    case (normal v st1)
    from "6.IH"(1)[OF normal(1)] "6.IH"(2)[OF normal(1) refl refl normal(2)]
    show ?thesis by simp
  qed
next
  case (7 n k st)
  then show ?case by auto
next
  case (8 n c st)
  from "8.prems" show ?case
  proof (cases rule: exec_Throw_cases)
    case (raised x)
    then show ?thesis using "8.IH" by blast
  next
    case (normal v)
    then show ?thesis using "8.IH" by blast
  qed
next
  case (9 n a b st)
  from "9.prems" show ?case
  proof (cases rule: exec_TryCatch_cases)
    case (raised x st1)
    from "9.IH"(1)[OF raised(1)] "9.IH"(2)[OF raised(1) refl refl raised(2)]
    show ?thesis by simp
  next
    case (normal v)
    then show ?thesis using "9.IH"(1) by blast
  qed
next
  case (10 n c st)
  then show ?case by simp
next
  case (11 n c st)
  then show ?case by simp
next
  case (12 n c st)
  then show ?case by simp
next
  case (13 n c st)
  then show ?case by simp
next
  case (14 n s st)
  then show ?case by (auto dest: scheduleObservers_stack)
next
  case (15 n s nextValue st)
  from "15.prems" show ?case
  proof (cases rule: write_cases)
    case quiet
    then show ?thesis by simp
  next
    case (notify out')
    from "15.IH"[OF refl _ notify(1)] notify(2) show ?thesis by simp
  qed
next
  case (16 n cb st)
  from "16.prems" show ?case
  proof (cases rule: runUpdates_cases)
    case (nested q)
    then show ?thesis using "16.IH"(3) by blast
  next
    case (raised x)
    from "16.IH"(1)[OF raised(1,2)] show ?thesis by simp
  next
    case (flush v st1)
    from "16.IH"(1)[OF flush(1,2)] "16.IH"(2)[OF flush(1,2) refl refl flush(3)]
    show ?thesis by simp
  qed
next
  case (17 n st)
  from "17.prems" show ?case
  proof (cases rule: flushUpdates_cases)
    case (raised x)
    then show ?thesis using "17.IH" by blast
  next
    case (normal v st1)
    from "17.IH"[OF normal(1)] normal(3) show ?thesis by simp
  qed
next
  case (18 n flushedIndex st)
  from "18.prems" show ?case
  proof (cases rule: flushLoop_cases)
    case absent
    then show ?thesis by simp
  next
    case (drained q)
    then show ?thesis by simp
  next
    case (raised q m x)
    from "18.IH"(1)[OF raised(1,2,3,4,5)] show ?thesis by simp
  next
    case (step q m v st1)
    from "18.IH"(1)[OF step(1,2,3,4,5)] "18.IH"(2)[OF step(1,2,3,4,5) refl refl step(6)]
    show ?thesis by simp
  qed
next
  case (19 e st)
  then show ?case by simp
next
  case (20 n e st)
  from "20.prems" show ?case
  proof (cases rule: runEffect_cases)
    case (1 m st1 out' st2)
    from 1(1) have m: "m = n" by simp
    from cleanup_control(1)[OF 1(2)] have a: "runningEffects st1 = runningEffects st"
      by (simp add: sameControl_def)
    from "20.IH"[OF 1(2)[unfolded m] 1(3)[unfolded m]] 
    have "runningEffects st2 = runningEffects st1 @ [e]" by simp
    with a 1(4) show ?thesis by simp
  qed
next
  case (21 n c st)
  from "21.prems" have "runEffect n (length (effects st)) (attachEffect c st) = Some (out, st')"
    by (simp add: createEffect.simps)
  from "21.IH"[OF this] show ?case
    by (simp add: attachEffect_def Let_def split: option.splits)
next
  case (22 n c st)
  from "22.prems" show ?case
  proof (cases rule: batch_cases)
    case (1 out')
    then show ?thesis using "22.IH" by blast
  qed
qed

subsection \<open>The queue while it is open\<close>

lemma grows_refl: "Updates st \<noteq> None \<Longrightarrow> grows st st"
  by (auto simp: grows_def)

lemma grows_trans: "grows a b \<Longrightarrow> grows b c \<Longrightarrow> grows a c"
  by (auto simp: grows_def)

lemma grows_open: "grows st st' \<Longrightarrow> Updates st' \<noteq> None"
  by (auto simp: grows_def)

lemma grows_sameControl: "sameControl st st' \<Longrightarrow> Updates st \<noteq> None \<Longrightarrow> grows st st'"
  by (auto simp: grows_def sameControl_def)

lemma grows_stack_r: "grows st st' \<Longrightarrow> grows st (st'\<lparr>runningEffects := r\<rparr>)"
  by (auto simp: grows_def)

lemma grows_stack_l: "grows (st\<lparr>runningEffects := r\<rparr>) st' \<Longrightarrow> grows st st'"
  by (auto simp: grows_def)

lemma scheduleObservers_grows:
  "scheduleObservers obs st = (out, st') \<Longrightarrow> Updates st \<noteq> None \<Longrightarrow>
     out = Normal Undefined \<and> grows st st'"
proof (induction obs st arbitrary: out st' rule: scheduleObservers.induct)
  case (1 st)
  then show ?case by (auto simp: grows_def)
next
  case (2 ob obs st)
  show ?case
  proof (cases "state (effects st ! ob) = None")
    case True
    from "2.prems"(2) obtain q where q: "Updates st = Some q" by auto
    let ?st1 = "st\<lparr>effects := (effects st)[ob := (effects st ! ob)\<lparr>state := Some ''pending''\<rparr>]\<rparr>"
    let ?st2 = "?st1\<lparr>Updates := Some (q @ [ob]), pushed := pushed ?st1 @ [ob]\<rparr>"
    from "2.prems"(1) True q have r: "scheduleObservers obs ?st2 = (out, st')"
      by (simp add: Let_def)
    have "out = Normal Undefined \<and> grows ?st2 st'"
      using "2.IH"(1)[OF True refl _ r] q by simp
    moreover have "grows st ?st2"
      using q by (simp add: grows_def)
    ultimately show ?thesis
      using grows_trans by blast
  next
    case False
    with "2.prems" "2.IH"(2) show ?thesis by simp
  qed
qed

lemma sameControl_attachEffect: "sameControl st (attachEffect c st)"
  by (simp add: attachEffect_def sameControl_def Let_def split: option.splits)

text \<open>
  While the queue is open, no call of the engine flushes: whatever runs only appends to
  the queue. The loop of \<^verbatim>\<open>flushUpdates\<close>, started at index \<open>i\<close>, runs the rest of
  the queue in the order of the queue, with whatever was appended meanwhile.
\<close>

lemma queue_grows:
  "exec n c st = Some (out, st') \<Longrightarrow> Updates st \<noteq> None \<Longrightarrow> grows st st'"
  "call n cb st = Some (out, st') \<Longrightarrow> Updates st \<noteq> None \<Longrightarrow> grows st st'"
  "write n s w st = Some (out, st') \<Longrightarrow> Updates st \<noteq> None \<Longrightarrow> grows st st'"
  "runUpdates n cb st = Some (out, st') \<Longrightarrow> Updates st \<noteq> None \<Longrightarrow> grows st st'"
  "flushUpdates n st = Some (Normal v, st') \<Longrightarrow> Updates st = Some q \<Longrightarrow>
     Updates st' = None \<and> (\<exists>d. pushed st' = pushed st @ d \<and> flushed st' = flushed st @ q @ d)"
  "flushLoop n i st = Some (Normal v, st') \<Longrightarrow> Updates st = Some q \<Longrightarrow> i \<le> length q \<Longrightarrow>
     \<exists>d. Updates st' = Some (q @ d) \<and> pushed st' = pushed st @ d \<and>
         flushed st' = flushed st @ drop i (q @ d)"
  "runEffect n e st = Some (out, st') \<Longrightarrow> Updates st \<noteq> None \<Longrightarrow> grows st st'"
  "createEffect n c st = Some (out, st') \<Longrightarrow> Updates st \<noteq> None \<Longrightarrow> grows st st'"
  "batch n c st = Some (out, st') \<Longrightarrow> Updates st \<noteq> None \<Longrightarrow> grows st st'"
proof (induction n c st and n cb st and n s w st and n cb st and n st and n i st and n e st
         and n c st and n c st arbitrary: out st' and out st' and out st' and out st' and v st' q
         and v st' q and out st' and out st' and out st'
         rule: exec_call_write_runUpdates_flushUpdates_flushLoop_runEffect_createEffect_batch.induct)
  case (1 n v st)
  then show ?case by (auto simp: grows_refl)
next
  case (2 n s st)
  then show ?case
    by (auto simp: grows_refl split: if_splits prod.splits dest!: read_control intro: grows_sameControl)
next
  case (3 n s c st)
  from "3.prems"(1) show ?case
  proof (cases rule: exec_Write_cases)
    case unbound
    then show ?thesis using "3.prems"(2) by (simp add: grows_refl)
  next
    case (raised x)
    then show ?thesis using "3.IH"(1) "3.prems"(2) by blast
  next
    case (normal v st1)
    from "3.IH"(1)[OF normal(1,2) "3.prems"(2)] have a: "grows st st1" .
    from "3.IH"(2)[OF normal(1,2) refl refl normal(3) grows_open[OF a]] a
    show ?thesis by (blast intro: grows_trans)
  qed
next
  case (4 n f a b st)
  from "4.prems"(1) show ?case
  proof (cases rule: exec_Op2_cases)
    case (raised1 x)
    then show ?thesis using "4.IH"(1) "4.prems"(2) by blast
  next
    case (raised2 va st1 x)
    from "4.IH"(1)[OF raised2(1) "4.prems"(2)] have a: "grows st st1" .
    from "4.IH"(2)[OF raised2(1) refl refl raised2(2) grows_open[OF a]] a
    show ?thesis by (blast intro: grows_trans)
  next
    case (normal va st1 vb)
    from "4.IH"(1)[OF normal(1) "4.prems"(2)] have a: "grows st st1" .
    from "4.IH"(2)[OF normal(1) refl refl normal(2) grows_open[OF a]] a
    show ?thesis by (blast intro: grows_trans)
  qed
next
  case (5 n c a b st)
  from "5.prems"(1) show ?case
  proof (cases rule: exec_If_cases)
    case (raised x)
    then show ?thesis using "5.IH"(1) "5.prems"(2) by blast
  next
    case (true v st1)
    from "5.IH"(1)[OF true(1) "5.prems"(2)] have a: "grows st st1" .
    from "5.IH"(2)[OF true(1) refl refl true(2,3) grows_open[OF a]] a
    show ?thesis by (blast intro: grows_trans)
  next
    case (false v st1)
    from "5.IH"(1)[OF false(1) "5.prems"(2)] have a: "grows st st1" .
    from "5.IH"(3)[OF false(1) refl refl false(2,3) grows_open[OF a]] a
    show ?thesis by (blast intro: grows_trans)
  qed
next
  case (6 n a b st)
  from "6.prems"(1) show ?case
  proof (cases rule: exec_Seq_cases)
    case (raised x)
    then show ?thesis using "6.IH"(1) "6.prems"(2) by blast
  next
    case (normal v st1)
    from "6.IH"(1)[OF normal(1) "6.prems"(2)] have a: "grows st st1" .
    from "6.IH"(2)[OF normal(1) refl refl normal(2) grows_open[OF a]] a
    show ?thesis by (blast intro: grows_trans)
  qed
next
  case (7 n k st)
  then show ?case by (auto simp: grows_def)
next
  case (8 n c st)
  from "8.prems"(1) show ?case
  proof (cases rule: exec_Throw_cases)
    case (raised x)
    then show ?thesis using "8.IH" "8.prems"(2) by blast
  next
    case (normal v)
    then show ?thesis using "8.IH" "8.prems"(2) by blast
  qed
next
  case (9 n a b st)
  from "9.prems"(1) show ?case
  proof (cases rule: exec_TryCatch_cases)
    case (raised x st1)
    from "9.IH"(1)[OF raised(1) "9.prems"(2)] have a: "grows st st1" .
    from "9.IH"(2)[OF raised(1) refl refl raised(2) grows_open[OF a]] a
    show ?thesis by (blast intro: grows_trans)
  next
    case (normal v)
    then show ?thesis using "9.IH"(1) "9.prems"(2) by blast
  qed
next
  case (10 n c st)
  then show ?case by simp
next
  case (11 n c st)
  then show ?case by simp
next
  case (12 n c st)
  then show ?case by (auto simp: grows_refl)
next
  case (13 n c st)
  then show ?case by simp
next
  case (14 n s st)
  then show ?case by (auto dest: scheduleObservers_grows)
next
  case (15 n s nextValue st)
  let ?st1 = "st\<lparr>signals := (signals st)[s := (signals st ! s)\<lparr>current := nextValue\<rparr>]\<rparr>"
  have a: "grows st ?st1"
    using "15.prems"(2) by (auto simp: grows_def)
  from "15.prems"(1) show ?case
  proof (cases rule: write_cases)
    case quiet
    then show ?thesis using a by simp
  next
    case (notify out')
    from "15.IH"[OF refl _ notify(1) grows_open[OF a]] notify(2) a
    show ?thesis by (auto intro: grows_trans)
  qed
next
  case (16 n cb st)
  from "16.prems"(1) show ?case
  proof (cases rule: runUpdates_cases)
    case (nested q)
    then show ?thesis using "16.IH"(3) "16.prems"(2) by blast
  next
    case (raised x)
    then show ?thesis using "16.prems"(2) by simp
  next
    case (flush v st1)
    then show ?thesis using "16.prems"(2) by simp
  qed
next
  case (17 n st)
  from "17.prems"(1) show ?case
  proof (cases rule: flushUpdates_cases)
    case (raised x)
    then show ?thesis by simp
  next
    case (normal w st1)
    from "17.IH"[OF normal(1) "17.prems"(2)] normal(3) show ?thesis by auto
  qed
next
  case (18 n flushedIndex st)
  from "18.prems"(1) show ?case
  proof (cases rule: flushLoop_cases)
    case absent
    then show ?thesis by simp
  next
    case (drained q')
    then show ?thesis using "18.prems"(2) by auto
  next
    case (raised q' m x)
    then show ?thesis by simp
  next
    case (step q' m w st1)
    from step(1) "18.prems"(2) have qq: "q' = q" by simp
    let ?st0 = "st\<lparr>flushed := flushed st @ [q ! flushedIndex]\<rparr>"
    have op: "Updates ?st0 \<noteq> None" using "18.prems"(2) by simp
    from "18.IH"(1)[OF step(1,2,3,4,5) ] op qq have "grows ?st0 st1" by simp
    then obtain d1 where d1: "Updates st1 = Some (q @ d1)" "pushed st1 = pushed st @ d1"
        "flushed st1 = flushed st @ [q ! flushedIndex]"
      using "18.prems"(2) by (auto simp: grows_def)
    from step(3) qq have le: "Suc flushedIndex \<le> length (q @ d1)" by simp
    from "18.IH"(2)[OF step(1,2,3,4,5) refl refl step(6) d1(1) le]
    obtain d2 where d2: "Updates st' = Some ((q @ d1) @ d2)" "pushed st' = pushed st1 @ d2"
        "flushed st' = flushed st1 @ drop (Suc flushedIndex) ((q @ d1) @ d2)"
      by blast
    from step(3) qq have "(q @ d1 @ d2) ! flushedIndex # drop (Suc flushedIndex) (q @ d1 @ d2)
         = drop flushedIndex (q @ d1 @ d2)"
      by (intro Cons_nth_drop_Suc) simp
    moreover from step(3) qq have "(q @ d1 @ d2) ! flushedIndex = q ! flushedIndex"
      by (simp add: nth_append)
    ultimately have "flushed st' = flushed st @ drop flushedIndex (q @ d1 @ d2)"
      using d1(3) d2(3) by simp
    with d1 d2 show ?thesis
      by (intro exI[of _ "d1 @ d2"]) simp
  qed
next
  case (19 e st)
  then show ?case by simp
next
  case (20 n e st)
  from "20.prems"(1) show ?case
  proof (cases rule: runEffect_cases)
    case (1 m st1 out' st2)
    from 1(1) have m: "m = n" by simp
    let ?st1 = "st1\<lparr>runningEffects := runningEffects st1 @ [e]\<rparr>"
    from cleanup_control(1)[OF 1(2)] have a: "grows st ?st1"
      using "20.prems"(2) by (auto simp: sameControl_def grows_def)
    from "20.IH"[OF 1(2)[unfolded m] 1(3)[unfolded m] grows_open[OF a]]
    have "grows ?st1 st2" .
    with a have "grows st st2" by (rule grows_trans)
    with 1(4) show ?thesis by (simp add: grows_stack_r)
  qed
next
  case (21 n c st)
  from "21.prems"(1) have r: "runEffect n (length (effects st)) (attachEffect c st) = Some (out, st')"
    by (simp add: createEffect.simps)
  have a: "grows st (attachEffect c st)"
    using sameControl_attachEffect "21.prems"(2) by (rule grows_sameControl)
  from "21.IH"[OF r grows_open[OF a]] a show ?case
    by (blast intro: grows_trans)
next
  case (22 n c st)
  from "22.prems"(1) show ?case
  proof (cases rule: batch_cases)
    case (1 out')
    then show ?thesis using "22.IH" "22.prems"(2) by blast
  qed
qed

lemma runUpdates_drains:
  assumes "Updates st = None" and "runUpdates n cb st = Some (Normal v, st')"
  shows "Updates st' = None \<and> (\<exists>d. pushed st' = pushed st @ d \<and> flushed st' = flushed st @ d)"
  using assms(2)
proof (cases rule: runUpdates_cases)
  case (nested q)
  then show ?thesis using assms(1) by simp
next
  case (raised x)
  then show ?thesis by simp
next
  case (flush w st1)
  let ?st0 = "st\<lparr>Updates := Some []\<rparr>"
  have "grows ?st0 st1"
    using queue_grows(2)[OF flush(2)] by simp
  then obtain d1 where d1: "Updates st1 = Some d1" "pushed st1 = pushed st @ d1"
      "flushed st1 = flushed st"
    by (auto simp: grows_def)
  from queue_grows(5)[OF flush(3) d1(1)] d1 show ?thesis by auto
qed

subsection \<open>Evaluating scenarios\<close>

lemmas eval_defs = createSignal_def init_def read_def getRunningEffect_def trackEffectDependency_def
  set_add_def set_delete_def unobserve_def forget_def attachEffect_def Let_def
  "write.simps" runUpdates.simps flushUpdates.simps flushLoop.simps createEffect.simps batch.simps
  cleanup.simps cleanupOwned.simps

subsection \<open>Markers, stored values and teardown\<close>

lemma mark_keeps:
  "j < length es \<Longrightarrow> state (es ! j) \<noteq> None \<Longrightarrow>
     state (es[ob := (es ! ob)\<lparr>state := Some p\<rparr>] ! j) \<noteq> None"
  by (cases "ob < length es") (auto simp: nth_list_update)

lemma mark_sets:
  "ob < length es \<Longrightarrow> state (es[ob := (es ! ob)\<lparr>state := Some p\<rparr>] ! ob) \<noteq> None"
  by simp

lemma scheduleObservers_marks:
  "scheduleObservers obs st = (out, st') \<Longrightarrow>
     signals st' = signals st \<and> length (effects st') = length (effects st) \<and>
     (\<forall>ob. ob < length (effects st) \<longrightarrow> state (effects st ! ob) \<noteq> None \<longrightarrow>
        state (effects st' ! ob) \<noteq> None) \<and>
     (\<forall>w. out = Normal w \<longrightarrow> (\<forall>ob\<in>set obs. ob < length (effects st) \<longrightarrow> state (effects st' ! ob) \<noteq> None))"
proof (induction obs st arbitrary: out st' rule: scheduleObservers.induct)
  case (1 st)
  then show ?case by auto
next
  case (2 ob obs st)
  show ?case
  proof (cases "state (effects st ! ob) = None")
    case True
    let ?st1 = "st\<lparr>effects := (effects st)[ob := (effects st ! ob)\<lparr>state := Some ''pending''\<rparr>]\<rparr>"
    show ?thesis
    proof (cases "Updates st")
      case None
      with True "2.prems" have "out = Raised TypeError" "st' = ?st1"
        by (simp_all add: Let_def)
      then show ?thesis
        using mark_keeps[of _ "effects st" ob] by auto
    next
      case (Some q)
      let ?st2 = "?st1\<lparr>Updates := Some (q @ [ob]), pushed := pushed ?st1 @ [ob]\<rparr>"
      from "2.prems" True Some have r: "scheduleObservers obs ?st2 = (out, st')"
        by (simp add: Let_def)
      from "2.IH"(1)[OF True refl _ r] Some
      have ih: "signals st' = signals ?st2" "length (effects st') = length (effects ?st2)"
        "\<forall>j. j < length (effects ?st2) \<longrightarrow> state (effects ?st2 ! j) \<noteq> None \<longrightarrow>
            state (effects st' ! j) \<noteq> None"
        "\<forall>w. out = Normal w \<longrightarrow> (\<forall>j\<in>set obs. j < length (effects ?st2) \<longrightarrow> state (effects st' ! j) \<noteq> None)"
        by simp_all
      have m: "\<And>j. j < length (effects st) \<Longrightarrow> j = ob \<or> state (effects st ! j) \<noteq> None \<Longrightarrow>
          state (effects ?st2 ! j) \<noteq> None"
        using mark_keeps[of _ "effects st" ob] mark_sets[of ob "effects st"] by auto
      from ih(1,2) have "signals st' = signals st" "length (effects st') = length (effects st)"
        by simp_all
      moreover from ih(3) m have "\<forall>j. j < length (effects st) \<longrightarrow> state (effects st ! j) \<noteq> None \<longrightarrow>
          state (effects st' ! j) \<noteq> None"
        by simp
      moreover from ih(3,4) m have "\<forall>w. out = Normal w \<longrightarrow>
          (\<forall>j\<in>set (ob # obs). j < length (effects st) \<longrightarrow> state (effects st' ! j) \<noteq> None)"
        by auto
      ultimately show ?thesis by blast
    qed
  next
    case False
    with "2.prems" have r: "scheduleObservers obs st = (out, st')" by simp
    from "2.IH"(2)[OF False r] False show ?thesis by auto
  qed
qed

lemma write_stores:
  assumes s: "s < length (signals st)"
    and ctx: "Updates st \<noteq> None \<or> observers (signals st ! s) = []"
    and w: "write n s nextValue st = Some (out, st')"
  shows "out = Normal Undefined \<and> current (signals st' ! s) = nextValue \<and>
        (\<forall>ob\<in>set (observers (signals st ! s)).
            ob < length (effects st) \<longrightarrow> state (effects st' ! ob) \<noteq> None)"
  using w
proof (cases rule: write_cases)
  case quiet
  then show ?thesis using s by simp
next
  case (notify out')
  let ?st1 = "st\<lparr>signals := (signals st)[s := (signals st ! s)\<lparr>current := nextValue\<rparr>]\<rparr>"
  from notify(2) s ctx obtain q where q: "Updates ?st1 = Some q" by auto
  from notify(1) q have c: "call n (Schedule s) ?st1 = Some (out', st')"
    by (simp add: runUpdates.simps)
  then have so: "scheduleObservers (observers (signals st ! s)) ?st1 = (out', st')"
    using s by simp
  from scheduleObservers_grows[OF so] q have o: "out' = Normal Undefined" by simp
  from scheduleObservers_marks[OF so] o s notify(3) show ?thesis by simp
qed

lemma scheduleObservers_pushes:
  "scheduleObservers obs st = (out, st') \<Longrightarrow> Updates st = Some q \<Longrightarrow>
     \<exists>d. Updates st' = Some (q @ d) \<and> pushed st' = pushed st @ d \<and> flushed st' = flushed st \<and>
         (\<forall>ob\<in>set obs. ob < length (effects st) \<longrightarrow> state (effects st ! ob) = None \<longrightarrow> ob \<in> set d)"
proof (induction obs st arbitrary: out st' q rule: scheduleObservers.induct)
  case (1 st)
  then show ?case by simp
next
  case (2 ob obs st)
  show ?case
  proof (cases "state (effects st ! ob) = None")
    case True
    let ?st1 = "st\<lparr>effects := (effects st)[ob := (effects st ! ob)\<lparr>state := Some ''pending''\<rparr>]\<rparr>"
    let ?st2 = "?st1\<lparr>Updates := Some (q @ [ob]), pushed := pushed ?st1 @ [ob]\<rparr>"
    from "2.prems" True have r: "scheduleObservers obs ?st2 = (out, st')"
      by (simp add: Let_def)
    from "2.IH"(1)[OF True refl _ r] "2.prems"(2)
    obtain d where d: "Updates st' = Some ((q @ [ob]) @ d)" "pushed st' = pushed ?st2 @ d"
        "flushed st' = flushed ?st2"
        "\<forall>j\<in>set obs. j < length (effects ?st2) \<longrightarrow> state (effects ?st2 ! j) = None \<longrightarrow> j \<in> set d"
      by auto
    have "\<forall>j\<in>set (ob # obs). j < length (effects st) \<longrightarrow> state (effects st ! j) = None \<longrightarrow>
        j \<in> set (ob # d)"
    proof (intro ballI impI)
      fix j assume j: "j \<in> set (ob # obs)" "j < length (effects st)" "state (effects st ! j) = None"
      show "j \<in> set (ob # d)"
      proof (cases "j = ob")
        case True
        then show ?thesis by simp
      next
        case False
        with j have "j \<in> set obs" "j < length (effects ?st2)" "state (effects ?st2 ! j) = None"
          by simp_all
        with d(4) show ?thesis by simp
      qed
    qed
    with d show ?thesis
      by (intro exI[of _ "ob # d"]) simp
  next
    case False
    with "2.prems" have r: "scheduleObservers obs st = (out, st')" by simp
    from "2.IH"(2)[OF False r "2.prems"(2)] False show ?thesis by auto
  qed
qed

lemma write_runs_observers:
  assumes top: "Updates st = None" and s: "s < length (signals st)"
    and w: "write n s v st = Some (Normal u, st')"
    and ob: "ob \<in> set (observers (signals st ! s))" "ob < length (effects st)"
      "state (effects st ! ob) = None"
  shows "\<exists>d. flushed st' = flushed st @ d \<and> ob \<in> set d"
  using w
proof (cases rule: write_cases)
  case quiet
  with ob(1) s show ?thesis by simp
next
  case (notify out')
  let ?st1 = "st\<lparr>signals := (signals st)[s := (signals st ! s)\<lparr>current := v\<rparr>]\<rparr>"
  from notify(3) obtain u' where o: "out' = Normal u'" by (cases out') auto
  from notify(1)[unfolded o] show ?thesis
  proof (cases rule: runUpdates_cases)
    case (nested q)
    then show ?thesis using top by simp
  next
    case (raised x)
    then show ?thesis by simp
  next
    case (flush w' st2)
    from flush(2) s have so: "scheduleObservers (observers (signals st ! s)) (?st1\<lparr>Updates := Some []\<rparr>)
        = (Normal w', st2)"
      by simp
    from scheduleObservers_pushes[OF so, of "[]"] ob
    obtain d1 where d1: "Updates st2 = Some d1" "flushed st2 = flushed st" "ob \<in> set d1"
      by auto
    from queue_grows(5)[OF flush(3) d1(1)] d1(2,3) show ?thesis by auto
  qed
qed

lemma cleanup_length:
  "cleanup d e st = Some st' \<Longrightarrow> length (effects st') = length (effects st)"
  "cleanupOwned d es st = Some st' \<Longrightarrow> length (effects st') = length (effects st)"
proof (induction d e st and d es st arbitrary: st' and st' rule: cleanup_cleanupOwned.induct)
  case (1 e st)
  then show ?case by (simp add: cleanup.simps)
next
  case (2 d e st)
  let ?st1 = "unobserve e (dependencies (effects st ! e)) st"
  have l: "length (effects ?st1) = length (effects st)"
    by (simp add: unobserve_def)
  show ?case
  proof (cases "owned (effects ?st1 ! e)")
    case None
    with 2(2) have "st' = forget e ?st1"
      by (simp add: cleanup.simps)
    then show ?thesis by (simp add: forget_def unobserve_def)
  next
    case (Some os)
    with 2(2) obtain st2 where c: "cleanupOwned d os ?st1 = Some st2"
      and r: "st' = forget e (st2\<lparr>effects := (effects st2)[e := (effects st2 ! e)\<lparr>owned := Some []\<rparr>]\<rparr>)"
      by (auto simp: cleanup.simps split: option.splits)
    from 2(1)[OF refl Some c] l r show ?thesis
      by (simp add: forget_def)
  qed
next
  case (3 d st)
  then show ?case by (simp add: cleanupOwned.simps)
next
  case (4 d c cs st)
  from 4(3) obtain st1 where a: "cleanup d c st = Some st1" and b: "cleanupOwned d cs st1 = Some st'"
    by (auto simp: cleanupOwned.simps split: option.splits)
  from 4(1)[OF a] 4(2)[OF a b] show ?case by simp
qed

lemma cleanup_clears_marker:
  assumes "cleanup d e st = Some st'" and "e < length (effects st)"
  shows "state (effects st' ! e) = None"
proof (cases d)
  case 0
  with assms(1) show ?thesis by (simp add: cleanup.simps)
next
  case (Suc d')
  let ?st1 = "unobserve e (dependencies (effects st ! e)) st"
  have l: "length (effects ?st1) = length (effects st)"
    by (simp add: unobserve_def)
  show ?thesis
  proof (cases "owned (effects ?st1 ! e)")
    case None
    with assms Suc have "st' = forget e ?st1"
      by (simp add: cleanup.simps)
    then show ?thesis using assms(2) by (simp add: forget_def unobserve_def)
  next
    case (Some os)
    with assms(1) Suc obtain st2 where c: "cleanupOwned d' os ?st1 = Some st2"
      and r: "st' = forget e (st2\<lparr>effects := (effects st2)[e := (effects st2 ! e)\<lparr>owned := Some []\<rparr>]\<rparr>)"
      by (auto simp: cleanup.simps split: option.splits)
    from cleanup_length(2)[OF c] l assms(2) have "e < length (effects st2)" by simp
    with r show ?thesis by (simp add: forget_def)
  qed
qed

lemma scheduleObservers_dedup:
  "scheduleObservers obs st = (out, st') \<Longrightarrow> Updates st = Some q \<Longrightarrow>
   \<forall>e\<in>set obs. e < length (effects st) \<Longrightarrow>
     \<exists>d. Updates st' = Some (q @ d) \<and> distinct d \<and> set d \<subseteq> set obs \<and>
         (\<forall>e\<in>set d. state (effects st ! e) = None)"
proof (induction obs st arbitrary: out st' q rule: scheduleObservers.induct)
  case (1 st)
  then show ?case by simp
next
  case (2 ob obs st)
  show ?case
  proof (cases "state (effects st ! ob) = None")
    case True
    let ?st1 = "st\<lparr>effects := (effects st)[ob := (effects st ! ob)\<lparr>state := Some ''pending''\<rparr>]\<rparr>"
    let ?st2 = "?st1\<lparr>Updates := Some (q @ [ob]), pushed := pushed ?st1 @ [ob]\<rparr>"
    from "2.prems" True have r: "scheduleObservers obs ?st2 = (out, st')"
      by (simp add: Let_def)
    from "2.prems"(3) have v: "\<forall>e\<in>set obs. e < length (effects ?st2)" by simp
    from "2.IH"(1)[OF True refl _ r _ v] "2.prems"(2)
    obtain d where d: "Updates st' = Some ((q @ [ob]) @ d)" "distinct d" "set d \<subseteq> set obs"
        "\<forall>e\<in>set d. state (effects ?st2 ! e) = None"
      by auto
    from "2.prems"(3) have ob: "ob < length (effects st)" by simp
    have "ob \<notin> set d"
    proof
      assume "ob \<in> set d"
      with d(4) have "state (effects ?st2 ! ob) = None" by blast
      with ob show False by simp
    qed
    moreover have "\<forall>e\<in>set d. state (effects st ! e) = None"
    proof
      fix e assume e: "e \<in> set d"
      with d(4) have n: "state (effects ?st2 ! e) = None" by blast
      show "state (effects st ! e) = None"
      proof (cases "e = ob")
        case True
        with n ob show ?thesis by simp
      next
        case False
        with n show ?thesis by simp
      qed
    qed
    ultimately show ?thesis
      using d True by (intro exI[of _ "ob # d"]) auto
  next
    case False
    with "2.prems" have r: "scheduleObservers obs st = (out, st')" by simp
    from "2.prems"(3) have v: "\<forall>e\<in>set obs. e < length (effects st)" by simp
    from "2.IH"(2)[OF False r "2.prems"(2) v] show ?thesis by auto
  qed
qed

lemma write_dedup:
  assumes w: "write n s v st = Some (out, st')" and q: "Updates st = Some q"
    and s: "s < length (signals st)"
    and valid: "\<forall>e\<in>set (observers (signals st ! s)). e < length (effects st)"
  shows "(\<exists>d. Updates st' = Some (q @ d) \<and> distinct d \<and> set d \<subseteq> set (observers (signals st ! s)) \<and>
             (\<forall>e\<in>set d. state (effects st ! e) = None)) \<and>
         (\<forall>e\<in>set (observers (signals st ! s)). state (effects st' ! e) \<noteq> None)"
  using w
proof (cases rule: write_cases)
  case quiet
  with s q show ?thesis by simp
next
  case (notify out')
  let ?st1 = "st\<lparr>signals := (signals st)[s := (signals st ! s)\<lparr>current := v\<rparr>]\<rparr>"
  from notify(1) q have "call n (Schedule s) ?st1 = Some (out', st')"
    by (simp add: runUpdates.simps)
  with s have so: "scheduleObservers (observers (signals st ! s)) ?st1 = (out', st')"
    by simp
  from q have q1: "Updates ?st1 = Some q" by simp
  from valid have v1: "\<forall>e\<in>set (observers (signals st ! s)). e < length (effects ?st1)" by simp
  from scheduleObservers_grows[OF so] q1 have o: "out' = Normal Undefined" by simp
  from scheduleObservers_dedup[OF so q1 v1] scheduleObservers_marks[OF so] o valid
  show ?thesis by simp
qed

subsection \<open>Calls from outside any effect\<close>



lemma writeEach_unobserved:
  "s < length (signals st) \<Longrightarrow> observers (signals st ! s) = [] \<Longrightarrow>
     \<exists>x. writeEach n s vs st =
       Some (Normal Undefined, st\<lparr>signals := (signals st)[s := \<lparr>current = x, observers = []\<rparr>]\<rparr>)"
proof (induction vs arbitrary: st)
  case Nil
  have "signals st ! s = \<lparr>current = current (signals st ! s), observers = []\<rparr>"
    using Nil(2) by (cases "signals st ! s") simp
  then have "(signals st)[s := \<lparr>current = current (signals st ! s), observers = []\<rparr>] = signals st"
    by (metis list_update_id)
  then show ?case
    by (intro exI[of _ "current (signals st ! s)"]) simp
next
  case (Cons v vs)
  let ?st1 = "st\<lparr>signals := (signals st)[s := (signals st ! s)\<lparr>current := v\<rparr>]\<rparr>"
  from Cons.prems have w: "write n s v st = Some (Normal Undefined, ?st1)"
    by (simp add: "write.simps" Let_def)
  from Cons.prems have "s < length (signals ?st1)" "observers (signals ?st1 ! s) = []"
    by simp_all
  from Cons.IH[OF this] obtain x where
    "writeEach n s vs ?st1 =
       Some (Normal Undefined, ?st1\<lparr>signals := (signals ?st1)[s := \<lparr>current = x, observers = []\<rparr>]\<rparr>)"
    by blast
  with w show ?case
    by (intro exI[of _ x]) simp
qed

subsection \<open>The number of signals\<close>






subsection \<open>Evaluating a body that only reads\<close>









subsection \<open>Signals observed by one effect\<close>

lemma observed_length [simp]: "length (observed vs A) = length vs"
  by (simp add: observed_def)

lemma observed_nth:
  "i < length vs \<Longrightarrow>
     observed vs A ! i = \<lparr>current = vs ! i, observers = (if i \<in> A then [0] else [])\<rparr>"
  by (simp add: observed_def)

lemma observed_values [simp]: "map current (observed vs A) = vs"
  by (rule nth_equalityI) (simp_all add: observed_nth)








lemma readsOf_scoped: "readOnly b \<Longrightarrow> scoped k b \<Longrightarrow> \<forall>s\<in>set (readsOf vs b). s < k"
  by (induction b) auto

lemma scoped_mono: "scoped k b \<Longrightarrow> k \<le> k' \<Longrightarrow> scoped k' b"
  by (induction b) auto






lemma valueOf_irrelevant:
  "readOnly b \<Longrightarrow> s \<notin> mentions b \<Longrightarrow> valueOf (vs[s := x]) b = valueOf vs b"
  by (induction b) simp_all

lemma readsOf_irrelevant:
  "readOnly b \<Longrightarrow> s \<notin> mentions b \<Longrightarrow> readsOf (vs[s := x]) b = readsOf vs b"
  by (induction b) (simp_all add: valueOf_irrelevant)


subsection \<open>One effect: its run, its creation, writes and batches\<close>

lemma fits_scoped: "fits k b len \<Longrightarrow> scoped len b"
  by (auto simp: fits_def split: option.splits intro: scoped_mono)

lemma fits_readOnly: "fits k b len \<Longrightarrow> readOnly b"
  by (simp add: fits_def)

lemma fits_reads:
  assumes "fits k b len"
  shows "\<forall>s\<in>set (readsOf vs b). s < len"
  using readsOf_scoped[OF fits_readOnly[OF assms] fits_scoped[OF assms]] .












lemma single_fields [simp]:
  "counters (single vs R body C P Fl) = C"
  "Updates (single vs R body C P Fl) = None"
  "flushed (single vs R body C P Fl) = Fl"
  "pushed (single vs R body C P Fl) = P"
  "runningEffects (single vs R body C P Fl) = []"
  "map current (signals (single vs R body C P Fl)) = vs"
  "length (signals (single vs R body C P Fl)) = length vs"
  "dependencies (effects (single vs R body C P Fl) ! 0) = fold set_add R []"
  by (simp_all add: single_def)


lemma single_observers:
  "i < length vs \<Longrightarrow>
     observers (signals (single vs R body C P Fl) ! i) = (if i \<in> set R then [0] else [])"
  by (simp add: single_def observed_nth)


subsection \<open>The batching scenario of the test file\<close>

text \<open>
  A memo over both signals together with an effect that reads the memo and both signals:
  one batch that writes both signals makes each of them run once more. The same two
  writes without a batch make an effect that reads both signals run twice more.
\<close>

lemma batch_test_scenario:
  "(\<exists>m st1 st2 st3. createMemo (Suc (Suc (Suc n))) (c5_memo f) (twoSignals a b) = Some (Normal Undefined, m, st1) \<and>
      exec (Suc (Suc (Suc n))) (CreateEffect (Seq (Read m) (c5_effect g))) st1 = Some (Normal Undefined, st2) \<and>
      counters st2 0 = 1 \<and> counters st2 1 = 1 \<and>
      exec (Suc (Suc (Suc n))) (c5_batch v1 v2) st2 = Some (Normal Undefined, st3) \<and>
      counters st3 0 = 2 \<and> counters st3 1 = 2 \<and> Updates st3 = None \<and>
      flushed st3 = flushed st2 @ [0, 1])
   \<and> (\<exists>st1 st2. exec (Suc (Suc n)) (CreateEffect (c5_effect f)) (twoSignals a b) = Some (Normal Undefined, st1) \<and>
      exec (Suc (Suc n)) (Seq (Write 0 (Const v1)) (Write 1 (Const v2))) st1 = Some (Normal Undefined, st2) \<and>
      counters st2 0 = 3)"
proof (intro conjI)
  show "\<exists>m st1 st2 st3. createMemo (Suc (Suc (Suc n))) (c5_memo f) (twoSignals a b) = Some (Normal Undefined, m, st1) \<and>
      exec (Suc (Suc (Suc n))) (CreateEffect (Seq (Read m) (c5_effect g))) st1 = Some (Normal Undefined, st2) \<and>
      counters st2 0 = 1 \<and> counters st2 1 = 1 \<and>
      exec (Suc (Suc (Suc n))) (c5_batch v1 v2) st2 = Some (Normal Undefined, st3) \<and>
      counters st3 0 = 2 \<and> counters st3 1 = 2 \<and> Updates st3 = None \<and>
      flushed st3 = flushed st2 @ [0, 1]"
    by (simp add: twoSignals_def c5_memo_def c5_effect_def c5_batch_def createMemo_def eval_defs
        eval_nat_numeral)
  show "\<exists>st1 st2. exec (Suc (Suc n)) (CreateEffect (c5_effect f)) (twoSignals a b) = Some (Normal Undefined, st1) \<and>
      exec (Suc (Suc n)) (Seq (Write 0 (Const v1)) (Write 1 (Const v2))) st1 = Some (Normal Undefined, st2) \<and>
      counters st2 0 = 3"
    by (simp add: twoSignals_def c5_effect_def eval_defs)
qed

section \<open>The claims\<close>

text \<open>
  C1. The claim asks for an operation \<^verbatim>\<open>untrack\<close>. The module \<^verbatim>\<open>index.ts\<close> defines and
  exports none, while the test file imports the name from it and calls it inside an
  effect. In the test scenario the call raises on the first run of the effect: the
  creation of the effect ends with a \<^verbatim>\<open>TypeError\<close>, the counter of the test is never
  incremented (the test expects 1), and the queue is left open.
\<close>

theorem untrack_call_raises:
  "\<exists>st'. c1_run (Suc n) = Some (Raised TypeError, st') \<and> counters st' 0 = 0 \<and>
      Updates st' = Some []"
  by (simp add: c1_run_def eval_defs)

text \<open>
  C2. \<^verbatim>\<open>runUpdates\<close> unsets the queue only at the end of \<^verbatim>\<open>flushUpdates\<close>, with no
  \<^verbatim>\<open>finally\<close> as \<^verbatim>\<open>runEffect\<close> has for the stack. When the body of an effect throws
  during the flush of a write, the write ends with the exception and the queue stays
  open although nothing is running; the next write then only appends to that queue, and
  the effect it should trigger does not run (counter 0 stays at 2).
\<close>

theorem queue_left_open_after_exception:
  "\<exists>st st'. c2_setup (Suc (Suc (Suc n))) = Some (Raised (Thrown (Str ''boom'')), st) \<and>
      Updates st = Some [0] \<and> runningEffects st = [] \<and> counters st 0 = 2 \<and>
      observers (signals st ! 0) = [0] \<and>
      write (Suc (Suc (Suc n))) 0 (Num 0) st = Some (Normal Undefined, st') \<and>
      Updates st' = Some [0, 0] \<and> counters st' 0 = 2"
  by (simp add: c2_setup_def c2_body_def eval_defs)

text \<open>
  C3. \<^verbatim>\<open>write\<close> stores the new value whatever the current value is, and schedules
  every observer. While a queue is open, or when the signal has no observer, the call
  returns with the new value stored and with every observer of the signal marked
  pending. When no queue is open, every observer of the signal whose marker is unset has
  been run by the flush loop when the call returns. In the scenario of the
  specification, for any initial value and any two written values (equal to the current
  value or not), the body of the effect has run twice after the first write and three
  times after the second.
\<close>

theorem write_stores_and_schedules:
  "(s < length (signals st) \<longrightarrow> (Updates st \<noteq> None \<or> observers (signals st ! s) = []) \<longrightarrow>
      write n s nextValue st = Some (out, st') \<longrightarrow>
        out = Normal Undefined \<and> current (signals st' ! s) = nextValue \<and>
        (\<forall>ob\<in>set (observers (signals st ! s)).
            ob < length (effects st) \<longrightarrow> state (effects st' ! ob) \<noteq> None))
   \<and> (s < length (signals st) \<longrightarrow> Updates st = None \<longrightarrow>
      write n s nextValue st = Some (Normal w, st') \<longrightarrow>
        (\<forall>ob\<in>set (observers (signals st ! s)).
            ob < length (effects st) \<longrightarrow> state (effects st ! ob) = None \<longrightarrow>
              (\<exists>d. flushed st' = flushed st @ d \<and> ob \<in> set d)))
   \<and> (\<exists>st1. c3_first (Suc (Suc k)) v0 v1 = Some (Normal Undefined, st1) \<and>
         counters st1 0 = 2 \<and> current (signals st1 ! 0) = v1)
   \<and> (\<exists>st2. c3_run (Suc (Suc k)) v0 v1 v2 = Some (Normal Undefined, st2) \<and>
         counters st2 0 = 3 \<and> current (signals st2 ! 0) = v2)"
proof -
  have "\<exists>st1. c3_first (Suc (Suc k)) v0 v1 = Some (Normal Undefined, st1) \<and>
         counters st1 0 = 2 \<and> current (signals st1 ! 0) = v1"
    by (simp add: c3_first_def eval_defs)
  moreover have "\<exists>st2. c3_run (Suc (Suc k)) v0 v1 v2 = Some (Normal Undefined, st2) \<and>
         counters st2 0 = 3 \<and> current (signals st2 ! 0) = v2"
    by (simp add: c3_run_def eval_defs)
  ultimately show ?thesis
    using write_stores[of s st n nextValue out st']
      write_runs_observers[of st s n nextValue w st']
    by blast
qed

theorem write_stores_and_schedules_witness:
  "\<exists>st st' st''. c8_setup = Some (Normal Undefined, st) \<and> current (signals st ! 0) = Num 0 \<and>
      observers (signals st ! 0) = [0, 2] \<and> Updates st = None \<and>
      write 0 0 (Num 0) (st\<lparr>Updates := Some []\<rparr>) = Some (Normal Undefined, st') \<and>
      Updates st' = Some [0, 2] \<and>
      current (signals st' ! 0) = Num 0 \<and>
      (\<forall>ob\<in>set (observers (signals (st\<lparr>Updates := Some []\<rparr>) ! 0)).
          ob < length (effects (st\<lparr>Updates := Some []\<rparr>)) \<longrightarrow> state (effects st' ! ob) \<noteq> None) \<and>
      write 4 0 (Num 0) st = Some (Normal Undefined, st'') \<and>
      (\<forall>ob\<in>set (observers (signals st ! 0)).
            ob < length (effects st) \<longrightarrow> state (effects st ! ob) = None \<longrightarrow>
              (\<exists>d. flushed st'' = flushed st @ d \<and> ob \<in> set d))"
proof -
  have "\<exists>st st' st''. c8_setup = Some (Normal Undefined, st) \<and> current (signals st ! 0) = Num 0 \<and>
      observers (signals st ! 0) = [0, 2] \<and> 0 < length (signals st) \<and> Updates st = None \<and>
      write 0 0 (Num 0) (st\<lparr>Updates := Some []\<rparr>) = Some (Normal Undefined, st') \<and>
      Updates st' = Some [0, 2] \<and>
      write 4 0 (Num 0) st = Some (Normal Undefined, st'')"
    by (simp add: c8_setup_def c8_A_def c8_B_def c8_C_def eval_defs eval_nat_numeral)
  then obtain st st' st'' where a: "c8_setup = Some (Normal Undefined, st)"
      "current (signals st ! 0) = Num 0" "observers (signals st ! 0) = [0, 2]"
      "0 < length (signals st)" "Updates st = None"
      "write 0 0 (Num 0) (st\<lparr>Updates := Some []\<rparr>) = Some (Normal Undefined, st')"
      "Updates st' = Some [0, 2]"
      "write 4 0 (Num 0) st = Some (Normal Undefined, st'')"
    by blast
  from write_stores_and_schedules[THEN conjunct1, rule_format,
      of 0 "st\<lparr>Updates := Some []\<rparr>" 0 "Num 0" "Normal Undefined" st'] a
  have b: "current (signals st' ! 0) = Num 0 \<and>
      (\<forall>ob\<in>set (observers (signals (st\<lparr>Updates := Some []\<rparr>) ! 0)).
          ob < length (effects (st\<lparr>Updates := Some []\<rparr>)) \<longrightarrow> state (effects st' ! ob) \<noteq> None)"
    by simp
  from write_stores_and_schedules[THEN conjunct2, THEN conjunct1, rule_format,
      of 0 st 4 "Num 0" Undefined st''] a
  have c: "\<forall>ob\<in>set (observers (signals st ! 0)).
            ob < length (effects st) \<longrightarrow> state (effects st ! ob) = None \<longrightarrow>
              (\<exists>d. flushed st'' = flushed st @ d \<and> ob \<in> set d)"
    by simp
  from a b c show ?thesis by blast
qed

text \<open>
  C4, as stated, fails. The marker is cleared by \<^verbatim>\<open>cleanup\<close> when the run of the effect
  starts, not when the flush completes, so an effect that has run can be appended again
  in the same cycle: here effect 0 is in the queue of one cycle twice, at the end of the
  loop of \<^verbatim>\<open>flushUpdates\<close>.
\<close>

theorem effect_queued_twice_in_one_cycle:
  "c4_queue = Some [0, 1, 0]"
  by (simp add: c4_queue_def c4_cycle_def c4_setup_def c4_batch_def eval_defs eval_nat_numeral)

text \<open>
  C4, amended. Scheduling at write time deduplicates against the pending marker: a write
  during a cycle appends to the queue only observers of its signal whose marker is
  unset, each of them at most once, and leaves every observer marked, so that an effect
  whose marker is set is not appended again. The marker of an effect is cleared by
  \<^verbatim>\<open>cleanup\<close>, that is when its own run starts or when it is torn down, not when the
  flush completes.
\<close>

theorem marker_deduplicates_each_write:
  "(write n s v st = Some (out, st') \<longrightarrow> Updates st = Some q \<longrightarrow> s < length (signals st) \<longrightarrow>
      (\<forall>e\<in>set (observers (signals st ! s)). e < length (effects st)) \<longrightarrow>
        (\<exists>d. Updates st' = Some (q @ d) \<and> distinct d \<and> set d \<subseteq> set (observers (signals st ! s)) \<and>
             (\<forall>e\<in>set d. state (effects st ! e) = None)) \<and>
        (\<forall>e\<in>set (observers (signals st ! s)). state (effects st' ! e) \<noteq> None))
   \<and> (cleanup k c st = Some st'' \<longrightarrow> c < length (effects st) \<longrightarrow> state (effects st'' ! c) = None)"
  using write_dedup[of n s v st out st' q] cleanup_clears_marker[of k c st st'']
  by blast

theorem marker_deduplicates_each_write_witness:
  "\<exists>st sa sb sc. c8_setup = Some (Normal Undefined, st) \<and>
      write 0 0 (Num 1) (st\<lparr>Updates := Some []\<rparr>) = (Some (Normal Undefined, sa)) \<and>
      Updates sa = Some [0, 2] \<and> length (effects sa) = 3 \<and> 0 < length (signals sa) \<and>
      observers (signals sa ! 0) = [0, 2] \<and>
      write 0 0 (Num 2) sa = Some (Normal Undefined, sb) \<and>
      Updates sb = Some [0, 2] \<and>
      cleanup 1 0 sa = Some sc \<and>
      (\<exists>d. Updates sb = Some ([0, 2] @ d) \<and> distinct d \<and> set d \<subseteq> set (observers (signals sa ! 0)) \<and>
           (\<forall>e\<in>set d. state (effects sa ! e) = None)) \<and>
      (\<forall>e\<in>set (observers (signals sa ! 0)). state (effects sb ! e) \<noteq> None) \<and>
      state (effects sa ! 0) \<noteq> None \<and> state (effects sc ! 0) = None"
proof -
  have "\<exists>st sa sb sc. c8_setup = Some (Normal Undefined, st) \<and>
      write 0 0 (Num 1) (st\<lparr>Updates := Some []\<rparr>) = (Some (Normal Undefined, sa)) \<and>
      Updates sa = Some [0, 2] \<and> length (effects sa) = 3 \<and> 0 < length (signals sa) \<and>
      observers (signals sa ! 0) = [0, 2] \<and>
      write 0 0 (Num 2) sa = Some (Normal Undefined, sb) \<and>
      Updates sb = Some [0, 2] \<and>
      cleanup 1 0 sa = Some sc \<and> state (effects sa ! 0) \<noteq> None"
    by (simp add: c8_setup_def c8_A_def c8_B_def c8_C_def eval_defs eval_nat_numeral)
  then obtain st sa sb sc where a: "c8_setup = Some (Normal Undefined, st)"
      "write 0 0 (Num 1) (st\<lparr>Updates := Some []\<rparr>) = (Some (Normal Undefined, sa))"
      "Updates sa = Some [0, 2]" "length (effects sa) = 3" "0 < length (signals sa)"
      "observers (signals sa ! 0) = [0, 2]"
      "write 0 0 (Num 2) sa = Some (Normal Undefined, sb)"
      "Updates sb = Some [0, 2]"
      "cleanup 1 0 sa = Some sc" "state (effects sa ! 0) \<noteq> None"
    by blast
  from a(4,6) have v: "\<forall>e\<in>set (observers (signals sa ! 0)). e < length (effects sa)" by simp
  from a(4) have w: "0 < length (effects sa)" by simp
  from marker_deduplicates_each_write[of 0 0 "Num 2" sa "Normal Undefined" sb "[0, 2]" 1 0 sc]
    a(7) a(3) a(5) v a(9) w
  have "(\<exists>d. Updates sb = Some ([0, 2] @ d) \<and> distinct d \<and> set d \<subseteq> set (observers (signals sa ! 0)) \<and>
           (\<forall>e\<in>set d. state (effects sa ! e) = None)) \<and>
      (\<forall>e\<in>set (observers (signals sa ! 0)). state (effects sb ! e) \<noteq> None) \<and>
      state (effects sc ! 0) = None"
    by blast
  with a show ?thesis by blast
qed







text \<open>
  C8. Within one flush the loop of \<^verbatim>\<open>flushUpdates\<close> runs the pending effects in the order
  in which they were appended to the queue, those appended during the drain after all
  those appended earlier, and the queue is drained and unset when the outermost write
  returns: for a write that starts with no queue open and returns normally, the effects
  that the flush loop ran since the call began (\<open>flushed\<close>) are, in this order, the
  effects that were appended to the queue since the call began (\<open>pushed\<close>), and the
  queue is absent afterwards.
\<close>

theorem flush_runs_in_append_order:
  assumes "Updates st = None" and "write n s v st = Some (Normal w, st')"
  shows "Updates st' = None \<and> (\<exists>d. pushed st' = pushed st @ d \<and> flushed st' = flushed st @ d)"
  using assms(2)
proof (cases rule: write_cases)
  case quiet
  then show ?thesis using assms(1) by simp
next
  case (notify out')
  from notify(3) obtain u where "out' = Normal u"
    by (cases out') auto
  with notify(1) runUpdates_drains[of "st\<lparr>signals := (signals st)[s := (signals st ! s)\<lparr>current := v\<rparr>]\<rparr>" n "Schedule s" u st']
    assms(1) show ?thesis by simp
qed

theorem flush_runs_in_append_order_witness:
  "\<exists>st st'. c8_setup = Some (Normal Undefined, st) \<and> Updates st = None \<and>
      write 4 0 (Num 1) st = Some (Normal Undefined, st') \<and>
      pushed st' = pushed st @ [0, 2, 1] \<and>
      Updates st' = None \<and> (\<exists>d. pushed st' = pushed st @ d \<and> flushed st' = flushed st @ d)"
proof -
  have "\<exists>st st'. c8_setup = Some (Normal Undefined, st) \<and> Updates st = None \<and>
      write 4 0 (Num 1) st = Some (Normal Undefined, st') \<and> pushed st' = pushed st @ [0, 2, 1]"
    by (simp add: c8_setup_def c8_A_def c8_B_def c8_C_def eval_defs eval_nat_numeral)
  then obtain st st' where a: "c8_setup = Some (Normal Undefined, st)" "Updates st = None"
      "write 4 0 (Num 1) st = Some (Normal Undefined, st')" "pushed st' = pushed st @ [0, 2, 1]"
    by blast
  from flush_runs_in_append_order[OF a(2,3)] a show ?thesis by blast
qed

text \<open>
  C9. When the body of an effect raises during a run, \<^verbatim>\<open>runEffect\<close> still pops the stack
  of running effects: after the exception has reached the caller, the stack and the
  running effect are what they were before the run was entered.
\<close>

theorem stack_popped_on_exception:
  assumes "runEffect n e st = Some (Raised x, st')"
  shows "runningEffects st' = runningEffects st \<and> getRunningEffect st' = getRunningEffect st"
  using stack_preserved(7)[OF assms] by (simp add: getRunningEffect_def)

theorem stack_popped_on_exception_witness:
  "\<exists>st'. runEffect 1 1 c9_state = Some (Raised (Thrown (Str ''boom'')), st') \<and>
      runningEffects c9_state = [0] \<and>
      runningEffects st' = runningEffects c9_state \<and> getRunningEffect st' = getRunningEffect c9_state"
proof -
  have "\<exists>st'. runEffect 1 1 c9_state = Some (Raised (Thrown (Str ''boom'')), st') \<and>
      runningEffects c9_state = [0]"
    by (simp add: c9_state_def eval_defs)
  then obtain st' where a: "runEffect 1 1 c9_state = Some (Raised (Thrown (Str ''boom'')), st')"
    "runningEffects c9_state = [0]"
    by blast
  from stack_popped_on_exception[OF a(1)] a show ?thesis by blast
qed



end
